theory Spec2Isabelle
  imports Main "HOL-Library.Word" "HOL-Library.Monad_Syntax"
begin

unbundle bit_operations_syntax

section \<open>The environment of the decoder\<close>

text \<open>
  The decoder reports a failure by writing one line to the standard error stream and
  returning a null pointer.  The lines are classified by their text:
  \<^item> \<open>InvalidMagic\<close>: "Invalid magic number encountered";
  \<^item> \<open>UnexpectedEof\<close>: "unexpected end-of-file reached while reading integer" and
    "unexpected end-of-file reached/encountered while reading pixel data";
  \<^item> \<open>MalformedInteger\<close>: "invalid character encountered in integer";
  \<^item> \<open>InvalidDimension\<close>: "width must be at least 1", "height must be at least 1";
  \<^item> \<open>InvalidRange\<close>: "depth must be between 1-4", "maxval must be between 1-65535";
  \<^item> \<open>RangeExceeded\<close>: "pixel value greater than maxval encountered";
  \<^item> \<open>IoOpenFailure\<close>: "Error opening file";
  \<^item> \<open>AllocFailure\<close>: the \<open>perror\<close> line after a failed \<open>malloc\<close>.
\<close>

datatype diag =
    IoOpenFailure | InvalidMagic | UnexpectedEof | MalformedInteger
  | InvalidDimension | InvalidRange | RangeExceeded | AllocFailure

text \<open>
  The state threaded through the decoder: the open stream (its bytes, the position
  indicator and the end-of-file indicator of the C library), the lines written to the
  standard error stream, and the allocator (which requests it grants, how many buffers
  it has handed out and how many were given back).
\<close>

record state =
  bytes :: "char list"
  pos :: nat
  eof :: bool
  stderr :: "diag list"
  malloc_ok :: "nat \<Rightarrow> bool"
  mallocs :: nat
  frees :: nat

type_synonym pixel = "32 word"

text \<open>A buffer returned by \<open>malloc\<close>: a slot is \<open>None\<close> until the decoder writes it.\<close>

type_synonym buffer = "pixel option list"

text \<open>The state before any file is opened, for an allocator \<open>m\<close>; \<open>fopen\<close> attaches the
  bytes of the opened file, positioned at their start.\<close>

definition world :: "(nat \<Rightarrow> bool) \<Rightarrow> state" where
  "world m = \<lparr>bytes = [], pos = 0, eof = False, stderr = [],
              malloc_ok = m, mallocs = 0, frees = 0\<rparr>"

definition world_ok :: state where
  "world_ok = world (\<lambda>n. True)"

definition fopen :: "state \<Rightarrow> char list \<Rightarrow> state" where
  "fopen s bs = s\<lparr>bytes := bs, pos := 0, eof := False\<rparr>"

text \<open>\<open>fgetc\<close>: the next byte as a value in 0..255, or \<open>-1\<close> at the end of the stream,
  which also sets the end-of-file indicator.\<close>

definition fgetc :: "state \<Rightarrow> int \<times> state" where
  "fgetc s = (if pos s < length (bytes s)
              then (of_char (bytes s ! pos s), s\<lparr>pos := pos s + 1\<rparr>)
              else (- 1, s\<lparr>eof := True\<rparr>))"

definition feof :: "state \<Rightarrow> bool" where
  "feof s = eof s"

definition ftell :: "state \<Rightarrow> nat" where
  "ftell s = pos s"

text \<open>\<open>fseek(f, p, SEEK_SET)\<close> and \<open>fseek(f, -1, SEEK_CUR)\<close>; a successful seek clears the
  end-of-file indicator.\<close>

definition fseek_set :: "state \<Rightarrow> nat \<Rightarrow> state" where
  "fseek_set s p = s\<lparr>pos := p, eof := False\<rparr>"

definition fseek_back :: "state \<Rightarrow> state" where
  "fseek_back s = s\<lparr>pos := pos s - 1, eof := False\<rparr>"

definition report :: "diag \<Rightarrow> state \<Rightarrow> state" where
  "report d s = s\<lparr>stderr := stderr s @ [d]\<rparr>"

text \<open>\<open>isspace\<close> in the C locale: space, and the control characters 9 to 13.\<close>

definition isspace :: "int \<Rightarrow> bool" where
  "isspace c = (c = 32 \<or> (9 \<le> c \<and> c \<le> 13))"

text \<open>Arithmetic on the C type \<open>int\<close> (32 bits, two's complement) wraps around.\<close>

definition int32 :: "int \<Rightarrow> int" where
  "int32 x = signed_take_bit 31 x"

section \<open>Tokenizer\<close>

text \<open>The loop \<open>while (!feof(f) && fgetc(f) != '\n');\<close> of \<open>FindToken\<close> and
  \<open>TokenTerminator\<close>.\<close>

function skip_comment :: "state \<Rightarrow> state" where
  "skip_comment s =
     (if feof s then s
      else (case fgetc s of (c, s') \<Rightarrow> if c \<noteq> 10 then skip_comment s' else s'))"
  by pat_completeness auto
termination
  by (relation "measure (\<lambda>s. length (bytes s) - pos s + (if eof s then 0 else 1))")
     (auto simp: fgetc_def feof_def split: if_splits)

declare skip_comment.simps [simp del]

text \<open>The loop \<open>while (fgetc(f) != '\n');\<close> of \<open>GrabInt\<close> and \<open>PbmAsciiLoad\<close>,
  which does not test the end-of-file indicator.\<close>

partial_function (option) skip_line :: "state \<Rightarrow> state option" where
  "skip_line s = (case fgetc s of (c, s') \<Rightarrow> if c \<noteq> 10 then skip_line s' else Some s')"

declare skip_line.simps [code]


lemma skip_comment_bytes [simp]: "bytes (skip_comment s) = bytes s"
  by (induction s rule: skip_comment.induct)
     (subst skip_comment.simps, auto simp: fgetc_def feof_def split: prod.splits if_splits)

lemma skip_comment_pos: "pos s \<le> pos (skip_comment s)"
  by (induction s rule: skip_comment.induct)
     (subst skip_comment.simps, auto simp: fgetc_def feof_def split: prod.splits if_splits)

lemma fgetc_measure:
  "fgetc s = (c', s') \<Longrightarrow>
   length (bytes s') - pos s' + (if c' = - 1 then 0 else 1) \<le> length (bytes s) - pos s"
  by (auto simp: fgetc_def split: if_splits)

lemma fgetc_skip_comment_measure:
  "fgetc (skip_comment s) = (c', s') \<Longrightarrow>
   length (bytes s') - pos s' + (if c' = - 1 then 0 else 1) \<le> length (bytes s) - pos s"
  using fgetc_measure [of "skip_comment s" c' s'] skip_comment_pos [of s] by simp

text \<open>\<open>FindToken\<close>: the \<open>while (c != -1)\<close> loop, entered with the byte just read.\<close>

function FindToken_loop :: "int \<Rightarrow> state \<Rightarrow> state" where
  "FindToken_loop c s =
     (if c \<noteq> - 1 then
        (if c = 35 then
           (case fgetc (skip_comment s) of (c', s') \<Rightarrow> FindToken_loop c' s')
         else if \<not> isspace c then fseek_back s
         else (case fgetc s of (c', s') \<Rightarrow> FindToken_loop c' s'))
      else s)"
  by pat_completeness auto
termination
  apply (relation "measure (\<lambda>(c, s). length (bytes s) - pos s + (if c = - 1 then 0 else 1))")
    apply simp
  subgoal for c s c' s'
    using fgetc_skip_comment_measure [of s c' s'] by (cases "fgetc (skip_comment s)") simp
  subgoal for c s c' s'
    using fgetc_measure [of s c' s'] by (cases "fgetc s") simp
  done

declare FindToken_loop.simps [simp del]

definition FindToken :: "state \<Rightarrow> state" where
  "FindToken s = (case fgetc s of (c, s') \<Rightarrow> FindToken_loop c s')"

definition TokenTerminator :: "state \<Rightarrow> bool \<times> state" where
  "TokenTerminator s =
     (case fgetc s of (c, s') \<Rightarrow>
        if c = 35 then (True, skip_comment s')
        else (c = - 1 \<or> isspace c, s'))"

function SkipToken :: "state \<Rightarrow> state" where
  "SkipToken s = (case TokenTerminator s of (t, s') \<Rightarrow> if \<not> t then SkipToken s' else s')"
  by pat_completeness auto
termination
  by (relation "measure (\<lambda>s. length (bytes s) - pos s)")
     (auto simp: TokenTerminator_def fgetc_def split: if_splits)

declare SkipToken.simps [simp del]

text \<open>The value of a \<open>char\<close> of the source in a comparison with an \<open>int\<close>: plain
  \<open>char\<close> is a signed 8-bit type on the platform at hand, so the bytes from 128 are
  negative (and the byte 255 is \<open>-1\<close>, the value \<open>fgetc\<close> returns at the end of the
  stream).\<close>

definition char_int :: "char \<Rightarrow> int" where
  "char_int ch = (if of_char ch < (128 :: int) then of_char ch else of_char ch - 256)"

text \<open>\<open>TokenMatch\<close>: the loop \<open>for (int i = 0; str[i]; i++)\<close> over the characters of
  \<open>str\<close>, which ends at the first NUL; \<open>False\<close> is the early exit at a mismatch (the caller
  then seeks back to the bookmark).\<close>

fun TokenMatch_loop :: "state \<Rightarrow> char list \<Rightarrow> bool \<times> state" where
  "TokenMatch_loop s [] = (True, s)"
| "TokenMatch_loop s (ch # str) =
     (if ch = CHR 0x00 then (True, s)
      else if feof s then (False, s)
      else (case fgetc s of (c, s') \<Rightarrow>
              if c \<noteq> char_int ch then (False, s') else TokenMatch_loop s' str))"

definition TokenMatch :: "state \<Rightarrow> char list \<Rightarrow> bool \<times> state" where
  "TokenMatch s str =
     (let bookmark = ftell s in
      case TokenMatch_loop s str of (ok, s1) \<Rightarrow>
        if \<not> ok then (False, fseek_set s1 bookmark)
        else (case TokenTerminator s1 of (t, s2) \<Rightarrow>
                if t then (True, s2) else (False, fseek_set s2 bookmark)))"

text \<open>\<open>GrabInt\<close>: the \<open>for\<close> loop accumulating digits, entered with the byte just read.
  \<open>None\<close> is the return at an invalid character; otherwise the byte that ended the loop
  and the number.\<close>

function GrabInt_loop :: "int \<Rightarrow> int \<Rightarrow> state \<Rightarrow> (int \<times> int) option \<times> state" where
  "GrabInt_loop c n s =
     (if c \<noteq> - 1 \<and> \<not> isspace c \<and> c \<noteq> 35 then
        (if 48 \<le> c \<and> c \<le> 57 then
           (case fgetc s of (c', s') \<Rightarrow> GrabInt_loop c' (int32 (n * 10 + (c - 48))) s')
         else (None, report MalformedInteger s))
      else (Some (c, n), s))"
  by pat_completeness auto
termination
  by (relation "measure (\<lambda>(c, n, s). length (bytes s) - pos s + (if c = - 1 then 0 else 1))")
     (auto simp: fgetc_def split: if_splits)

declare GrabInt_loop.simps [simp del]

definition GrabInt :: "state \<Rightarrow> (int \<times> state) option" where
  "GrabInt s =
     (let s1 = FindToken s in
      if feof s1 then Some (- 1, report UnexpectedEof s1)
      else (case fgetc s1 of (c, s2) \<Rightarrow>
        (case GrabInt_loop c 0 s2 of
           (None, s3) \<Rightarrow> Some (- 1, s3)
         | (Some (c', n), s3) \<Rightarrow>
             if c' = 35 then do { s4 \<leftarrow> skip_line s3; Some (n, s4) }
             else Some (n, s3))))"

section \<open>Headers\<close>

text \<open>\<open>malloc((*w) * (*h) * sizeof(uint32_t))\<close>: the product of the two \<open>int\<close>s wraps, is
  converted to the 64-bit \<open>size_t\<close> and multiplied by 4.\<close>

definition pix_bytes :: "int \<Rightarrow> int \<Rightarrow> nat" where
  "pix_bytes w h = nat ((int32 (w * h) * 4) mod 2 ^ 64)"

definition malloc :: "state \<Rightarrow> nat \<Rightarrow> buffer option \<times> state" where
  "malloc s n =
     (if malloc_ok s n then (Some (replicate (n div 4) None), s\<lparr>mallocs := mallocs s + 1\<rparr>)
      else (None, s))"

definition free :: "state \<Rightarrow> state" where
  "free s = s\<lparr>frees := frees s + 1\<rparr>"

text \<open>The results of the header readers are the returned buffer (\<open>None\<close> is \<open>NULL\<close>), the
  values left in \<open>*w\<close> and \<open>*h\<close>, the other header fields, and the state.\<close>

partial_function (option) ReadPamHeader_loop ::
  "state \<Rightarrow> int \<Rightarrow> int \<Rightarrow> int \<Rightarrow> int \<Rightarrow> (bool \<times> int \<times> int \<times> int \<times> int \<times> state) option" where
  "ReadPamHeader_loop s w h depth maxval =
     (case TokenMatch (FindToken s) ''DEPTH'' of (m1, s1) \<Rightarrow>
        if m1 then
          do { (d, s') \<leftarrow> GrabInt s1;
               if d < 0 then Some (False, - 1, - 1, d, maxval, s')
               else ReadPamHeader_loop s' w h d maxval }
        else (case TokenMatch s1 ''MAXVAL'' of (m2, s2) \<Rightarrow>
        if m2 then
          do { (m, s') \<leftarrow> GrabInt s2;
               if m < 0 then Some (False, - 1, - 1, depth, m, s')
               else ReadPamHeader_loop s' w h depth m }
        else (case TokenMatch s2 ''HEIGHT'' of (m3, s3) \<Rightarrow>
        if m3 then
          do { (h', s') \<leftarrow> GrabInt s3;
               if h' < 0 then Some (False, - 1, h', depth, maxval, s')
               else ReadPamHeader_loop s' w h' depth maxval }
        else (case TokenMatch s3 ''WIDTH'' of (m4, s4) \<Rightarrow>
        if m4 then
          do { (w', s') \<leftarrow> GrabInt s4;
               if w' < 0 then Some (False, w', - 1, depth, maxval, s')
               else ReadPamHeader_loop s' w' h depth maxval }
        else (case TokenMatch s4 ''ENDHDR'' of (m5, s5) \<Rightarrow>
        if m5 then Some (True, w, h, depth, maxval, s5)
        else ReadPamHeader_loop (SkipToken (FindToken (SkipToken s5))) w h depth maxval)))))"

declare ReadPamHeader_loop.simps [code]

definition ReadPamHeader_check ::
  "state \<Rightarrow> int \<Rightarrow> int \<Rightarrow> int \<Rightarrow> int \<Rightarrow> buffer option \<times> int \<times> int \<times> int \<times> int \<times> state" where
  "ReadPamHeader_check s w h depth maxval =
     (if depth < 1 \<or> depth > 4 then (None, - 1, - 1, depth, maxval, report InvalidRange s)
      else if maxval < 1 \<or> maxval > 65535 then
        (None, - 1, - 1, depth, maxval, report InvalidRange s)
      else if w < 1 then (None, w, - 1, depth, maxval, report InvalidDimension s)
      else if h < 1 then (None, - 1, h, depth, maxval, report InvalidDimension s)
      else (case malloc s (pix_bytes w h) of
              (None, s') \<Rightarrow> (None, - 1, - 1, depth, maxval, report AllocFailure s')
            | (Some pix, s') \<Rightarrow> (Some pix, w, h, depth, maxval, s')))"

definition ReadPamHeader ::
  "state \<Rightarrow> int \<Rightarrow> int \<Rightarrow> int \<Rightarrow> int \<Rightarrow>
   (buffer option \<times> int \<times> int \<times> int \<times> int \<times> state) option" where
  "ReadPamHeader s w h depth maxval =
     do { (ok, w', h', depth', maxval', s') \<leftarrow> ReadPamHeader_loop s w h depth maxval;
          if ok then Some (ReadPamHeader_check s' w' h' depth' maxval')
          else Some (None, w', h', depth', maxval', s') }"

text \<open>\<open>ReadHeader\<close> writes \<open>*maxval\<close> only after width and height were accepted, and its
  callers read it only when a buffer was returned: the buffer and maxval are returned
  together.\<close>

definition ReadHeader :: "state \<Rightarrow> ((buffer \<times> int) option \<times> int \<times> int \<times> state) option" where
  "ReadHeader s =
     do { (w, s1) \<leftarrow> GrabInt s;
          if w < 1 then
            Some (None, - 1, - 1, if w = 0 then report InvalidDimension s1 else s1)
          else
     do { (h, s2) \<leftarrow> GrabInt s1;
          if h < 1 then
            Some (None, - 1, - 1, if h = 0 then report InvalidDimension s2 else s2)
          else
     do { (maxval, s3) \<leftarrow> GrabInt s2;
          if maxval < 1 \<or> maxval > 65535 then
            Some (None, - 1, - 1, if maxval > 0 then report InvalidRange s3 else s3)
          else (case malloc s3 (pix_bytes w h) of
                  (None, s4) \<Rightarrow> Some (None, - 1, - 1, report AllocFailure s4)
                | (Some pix, s4) \<Rightarrow> Some (Some (pix, maxval), w, h, s4)) } } }"

definition ReadPbmHeader :: "state \<Rightarrow> (buffer option \<times> int \<times> int \<times> state) option" where
  "ReadPbmHeader s =
     do { (w, s1) \<leftarrow> GrabInt s;
          if w < 1 then
            Some (None, - 1, - 1, if w = 0 then report InvalidDimension s1 else s1)
          else
     do { (h, s2) \<leftarrow> GrabInt s1;
          if h < 1 then
            Some (None, - 1, - 1, if h = 0 then report InvalidDimension s2 else s2)
          else (case malloc s2 (pix_bytes w h) of
                  (None, s3) \<Rightarrow> Some (None, - 1, - 1, report AllocFailure s3)
                | (Some pix, s3) \<Rightarrow> Some (Some pix, w, h, s3)) } }"


section \<open>Pixel decoders\<close>

text \<open>\<open>GrabAsciiValue\<close> and \<open>GrabBinValue\<close>: \<open>None\<close> is the result \<open>false\<close>, \<open>Some\<close> holds
  what was stored in \<open>*dest\<close>.  The arithmetic is that of \<open>uint32_t\<close>.\<close>

definition GrabAsciiValue :: "int \<Rightarrow> state \<Rightarrow> (pixel option \<times> state) option" where
  "GrabAsciiValue maxval s =
     do { (n, s') \<leftarrow> GrabInt s;
          if n < 0 then Some (None, s')
          else if n > maxval then Some (None, report RangeExceeded s')
          else Some (Some ((word_of_int n * 255) div word_of_int maxval), s') }"

definition GrabBinValue :: "int \<Rightarrow> state \<Rightarrow> pixel option \<times> state" where
  "GrabBinValue maxval s =
     (if feof s then (None, report UnexpectedEof s)
      else (case fgetc s of (c, s1) \<Rightarrow>
        (case (if maxval > 255 then
                 (if feof s1 then None
                  else (case fgetc s1 of (c2, s2) \<Rightarrow>
                          Some (push_bit 8 (word_of_int c) OR word_of_int c2, s2)))
               else Some (word_of_int c, s1)) of
           None \<Rightarrow> (None, report UnexpectedEof s1)
         | Some (dest, s2) \<Rightarrow>
             if dest > word_of_int maxval then (None, report RangeExceeded s2)
             else (Some ((dest * 255) div word_of_int maxval), s2))))"

text \<open>The loops \<open>for (int i = 0; i < size; i++)\<close> of \<open>GrayscaleLoad\<close>, \<open>ColorLoad\<close>,
  \<open>PpmAsciiLoad\<close> and \<open>PgmAsciiLoad\<close> have one shape: read the samples of pixel \<open>i\<close>,
  leave the loop with \<open>false\<close> if one of the reads fails, store the packed pixel in
  \<open>pix[i]\<close>.  \<open>rd\<close> reads and packs the samples of one pixel.\<close>

function pixel_loop ::
  "(state \<Rightarrow> (pixel option \<times> state) option) \<Rightarrow> int \<Rightarrow> int \<Rightarrow> buffer \<Rightarrow> state \<Rightarrow>
   (bool \<times> buffer \<times> state) option" where
  "pixel_loop rd sz i pix s =
     (if i < sz then
        (case rd s of
           None \<Rightarrow> None
         | Some (None, s') \<Rightarrow> Some (False, pix, s')
         | Some (Some v, s') \<Rightarrow> pixel_loop rd sz (i + 1) (pix[nat i := Some v]) s')
      else Some (True, pix, s))"
  by pat_completeness auto
termination
  by (relation "measure (\<lambda>(rd, sz, i, pix, s). nat (sz - i))") auto

declare pixel_loop.simps [simp del]

text \<open>The bodies of the four loops of \<open>GrayscaleLoad\<close> and \<open>ColorLoad\<close>; \<open>||\<close> stops at
  the first read that fails.\<close>

definition gray_pixel :: "int \<Rightarrow> state \<Rightarrow> pixel option \<times> state" where
  "gray_pixel maxval s =
     (case GrabBinValue maxval s of
        (None, s1) \<Rightarrow> (None, s1)
      | (Some gray, s1) \<Rightarrow>
          (Some (push_bit 24 gray OR push_bit 16 gray OR push_bit 8 gray OR 0xff), s1))"

definition gray_alpha_pixel :: "int \<Rightarrow> state \<Rightarrow> pixel option \<times> state" where
  "gray_alpha_pixel maxval s =
     (case GrabBinValue maxval s of
        (None, s1) \<Rightarrow> (None, s1)
      | (Some gray, s1) \<Rightarrow>
     (case GrabBinValue maxval s1 of
        (None, s2) \<Rightarrow> (None, s2)
      | (Some alpha, s2) \<Rightarrow>
          (Some (push_bit 24 gray OR push_bit 16 gray OR push_bit 8 gray OR alpha), s2)))"

definition rgb_pixel :: "int \<Rightarrow> state \<Rightarrow> pixel option \<times> state" where
  "rgb_pixel maxval s =
     (case GrabBinValue maxval s of
        (None, s1) \<Rightarrow> (None, s1)
      | (Some r, s1) \<Rightarrow>
     (case GrabBinValue maxval s1 of
        (None, s2) \<Rightarrow> (None, s2)
      | (Some g, s2) \<Rightarrow>
     (case GrabBinValue maxval s2 of
        (None, s3) \<Rightarrow> (None, s3)
      | (Some b, s3) \<Rightarrow>
          (Some (push_bit 24 r OR push_bit 16 g OR push_bit 8 b OR 0xff), s3))))"

definition rgba_pixel :: "int \<Rightarrow> state \<Rightarrow> pixel option \<times> state" where
  "rgba_pixel maxval s =
     (case GrabBinValue maxval s of
        (None, s1) \<Rightarrow> (None, s1)
      | (Some r, s1) \<Rightarrow>
     (case GrabBinValue maxval s1 of
        (None, s2) \<Rightarrow> (None, s2)
      | (Some g, s2) \<Rightarrow>
     (case GrabBinValue maxval s2 of
        (None, s3) \<Rightarrow> (None, s3)
      | (Some b, s3) \<Rightarrow>
     (case GrabBinValue maxval s3 of
        (None, s4) \<Rightarrow> (None, s4)
      | (Some a, s4) \<Rightarrow>
          (Some (push_bit 24 r OR push_bit 16 g OR push_bit 8 b OR a), s4)))))"

definition GrayscaleLoad ::
  "state \<Rightarrow> buffer \<Rightarrow> int \<Rightarrow> int \<Rightarrow> int \<Rightarrow> bool \<Rightarrow> (bool \<times> buffer \<times> state) option" where
  "GrayscaleLoad s pix w h maxval get_alpha =
     (let sz = int32 (w * h) in
      if get_alpha then pixel_loop (\<lambda>s. Some (gray_alpha_pixel maxval s)) sz 0 pix s
      else pixel_loop (\<lambda>s. Some (gray_pixel maxval s)) sz 0 pix s)"

definition ColorLoad ::
  "state \<Rightarrow> buffer \<Rightarrow> int \<Rightarrow> int \<Rightarrow> int \<Rightarrow> bool \<Rightarrow> (bool \<times> buffer \<times> state) option" where
  "ColorLoad s pix w h maxval get_alpha =
     (let sz = int32 (w * h) in
      if get_alpha then pixel_loop (\<lambda>s. Some (rgba_pixel maxval s)) sz 0 pix s
      else pixel_loop (\<lambda>s. Some (rgb_pixel maxval s)) sz 0 pix s)"

text \<open>A loader that fails after the header sets \<open>*w\<close> and \<open>*h\<close> to \<open>-1\<close>, frees the buffer
  and returns \<open>NULL\<close>.\<close>

definition finish :: "int \<Rightarrow> int \<Rightarrow> (bool \<times> buffer \<times> state) \<Rightarrow> buffer option \<times> int \<times> int \<times> state" where
  "finish w h r =
     (case r of (ok, pix, s) \<Rightarrow>
        if \<not> ok then (None, - 1, - 1, free s) else (Some pix, w, h, s))"

definition PamLoad ::
  "state \<Rightarrow> int \<Rightarrow> int \<Rightarrow> int \<Rightarrow> int \<Rightarrow> (buffer option \<times> int \<times> int \<times> state) option" where
  "PamLoad s w0 h0 depth0 maxval0 =
     do { (p, w, h, depth, maxval, s1) \<leftarrow> ReadPamHeader s w0 h0 depth0 maxval0;
          case p of
            None \<Rightarrow> Some (None, w, h, s1)
          | Some pix \<Rightarrow>
              if depth = 1 then map_option (finish w h) (GrayscaleLoad s1 pix w h maxval False)
              else if depth = 2 then
                map_option (finish w h) (GrayscaleLoad s1 pix w h maxval True)
              else if depth = 3 then map_option (finish w h) (ColorLoad s1 pix w h maxval False)
              else if depth = 4 then map_option (finish w h) (ColorLoad s1 pix w h maxval True)
              else Some (Some pix, w, h, s1) }"

definition PpmRawLoad :: "state \<Rightarrow> (buffer option \<times> int \<times> int \<times> state) option" where
  "PpmRawLoad s =
     do { (p, w, h, s1) \<leftarrow> ReadHeader s;
          case p of
            None \<Rightarrow> Some (None, w, h, s1)
          | Some (pix, maxval) \<Rightarrow> map_option (finish w h) (ColorLoad s1 pix w h maxval False) }"

definition PgmRawLoad :: "state \<Rightarrow> (buffer option \<times> int \<times> int \<times> state) option" where
  "PgmRawLoad s =
     do { (p, w, h, s1) \<leftarrow> ReadHeader s;
          case p of
            None \<Rightarrow> Some (None, w, h, s1)
          | Some (pix, maxval) \<Rightarrow>
              map_option (finish w h) (GrayscaleLoad s1 pix w h maxval False) }"

text \<open>\<open>PbmRawLoad\<close>: the loop, with the local \<open>byte\<close> (a \<open>uint8_t\<close>) carried from one pixel
  to the next; the failure exit is inside the loop.\<close>

function PbmRawLoad_loop ::
  "int \<Rightarrow> int \<Rightarrow> 8 word \<Rightarrow> buffer \<Rightarrow> state \<Rightarrow> bool \<times> buffer \<times> state" where
  "PbmRawLoad_loop sz i byte pix s =
     (if i < sz then
        (case (if i mod 8 = 0 then
                 (if feof s then None
                  else (case fgetc s of (c, s1) \<Rightarrow> Some (word_of_int c, s1)))
               else Some (byte, s)) of
           None \<Rightarrow> (False, pix, report UnexpectedEof s)
         | Some (byte', s1) \<Rightarrow>
             PbmRawLoad_loop sz (i + 1) byte'
               (pix[nat i := Some (if byte' AND push_bit (nat (7 - i mod 8)) 1 \<noteq> 0
                                   then 0x000000ff else 0xffffffff)]) s1)
      else (True, pix, s))"
  by pat_completeness auto
termination
  by (relation "measure (\<lambda>(sz, i, byte, pix, s). nat (sz - i))") auto

declare PbmRawLoad_loop.simps [simp del]

text \<open>\<open>byte\<close> is not initialised; it is assigned at \<open>i = 0\<close> before it is first read, so
  the value passed here is never used.\<close>

definition PbmRawLoad :: "state \<Rightarrow> (buffer option \<times> int \<times> int \<times> state) option" where
  "PbmRawLoad s =
     do { (p, w, h, s1) \<leftarrow> ReadPbmHeader s;
          case p of
            None \<Rightarrow> Some (None, w, h, s1)
          | Some pix \<Rightarrow> Some (finish w h (PbmRawLoad_loop (int32 (w * h)) 0 0 pix s1)) }"

definition ppm_ascii_pixel :: "int \<Rightarrow> state \<Rightarrow> (pixel option \<times> state) option" where
  "ppm_ascii_pixel maxval s =
     do { (x, s1) \<leftarrow> GrabAsciiValue maxval s;
          case x of None \<Rightarrow> Some (None, s1) | Some r \<Rightarrow>
     do { (y, s2) \<leftarrow> GrabAsciiValue maxval s1;
          case y of None \<Rightarrow> Some (None, s2) | Some g \<Rightarrow>
     do { (z, s3) \<leftarrow> GrabAsciiValue maxval s2;
          case z of None \<Rightarrow> Some (None, s3) | Some b \<Rightarrow>
            Some (Some (push_bit 24 r OR push_bit 16 g OR push_bit 8 b OR 0xff), s3) } } }"

definition pgm_ascii_pixel :: "int \<Rightarrow> state \<Rightarrow> (pixel option \<times> state) option" where
  "pgm_ascii_pixel maxval s =
     do { (x, s1) \<leftarrow> GrabAsciiValue maxval s;
          case x of None \<Rightarrow> Some (None, s1) | Some gray \<Rightarrow>
            Some (Some (push_bit 24 gray OR push_bit 16 gray OR push_bit 8 gray OR 0xff), s1) }"

definition PpmAsciiLoad :: "state \<Rightarrow> (buffer option \<times> int \<times> int \<times> state) option" where
  "PpmAsciiLoad s =
     do { (p, w, h, s1) \<leftarrow> ReadHeader s;
          case p of
            None \<Rightarrow> Some (None, w, h, s1)
          | Some (pix, maxval) \<Rightarrow>
              map_option (finish w h)
                (pixel_loop (ppm_ascii_pixel maxval) (int32 (w * h)) 0 pix s1) }"

definition PgmAsciiLoad :: "state \<Rightarrow> (buffer option \<times> int \<times> int \<times> state) option" where
  "PgmAsciiLoad s =
     do { (p, w, h, s1) \<leftarrow> ReadHeader s;
          case p of
            None \<Rightarrow> Some (None, w, h, s1)
          | Some (pix, maxval) \<Rightarrow>
              map_option (finish w h)
                (pixel_loop (pgm_ascii_pixel maxval) (int32 (w * h)) 0 pix s1) }"

text \<open>\<open>PbmAsciiLoad\<close>: the loop \<open>for (int i = 0; i < size;)\<close> with its \<open>switch\<close>.\<close>

partial_function (option) PbmAsciiLoad_loop ::
  "int \<Rightarrow> int \<Rightarrow> buffer \<Rightarrow> state \<Rightarrow> (bool \<times> buffer \<times> state) option" where
  "PbmAsciiLoad_loop sz i pix s =
     (if i < sz then
        (case fgetc s of (c, s1) \<Rightarrow>
           if c = - 1 then Some (False, pix, report UnexpectedEof s1)
           else if c = 35 then
             do { s2 \<leftarrow> skip_line s1; PbmAsciiLoad_loop sz i pix s2 }
           else if c = 48 then
             PbmAsciiLoad_loop sz (i + 1) (pix[nat i := Some 0xffffffff]) s1
           else if c = 49 then
             PbmAsciiLoad_loop sz (i + 1) (pix[nat i := Some 0x000000ff]) s1
           else PbmAsciiLoad_loop sz i pix s1)
      else Some (True, pix, s))"

declare PbmAsciiLoad_loop.simps [code]

definition PbmAsciiLoad :: "state \<Rightarrow> (buffer option \<times> int \<times> int \<times> state) option" where
  "PbmAsciiLoad s =
     do { (p, w, h, s1) \<leftarrow> ReadPbmHeader s;
          case p of
            None \<Rightarrow> Some (None, w, h, s1)
          | Some pix \<Rightarrow> map_option (finish w h) (PbmAsciiLoad_loop (int32 (w * h)) 0 pix s1) }"

section \<open>Dispatcher\<close>

text \<open>\<open>PnmLoad\<close>.  \<open>file\<close> is what \<open>fopen\<close> finds under the file name (\<open>None\<close>: the file
  cannot be opened); \<open>w0\<close> and \<open>h0\<close> are the caller's \<open>*w\<close> and \<open>*h\<close> before the call;
  \<open>depth0\<close> and \<open>maxval0\<close> are the indeterminate values of the two locals that \<open>PamLoad\<close>
  declares without initialising them.  The result is the returned pointer, \<open>*w\<close>, \<open>*h\<close>
  and the final state, or \<open>None\<close> when the call does not return.\<close>

definition PnmLoad ::
  "state \<Rightarrow> char list option \<Rightarrow> int \<Rightarrow> int \<Rightarrow> int \<Rightarrow> int \<Rightarrow>
   (buffer option \<times> int \<times> int \<times> state) option" where
  "PnmLoad s0 file w0 h0 depth0 maxval0 =
     (case file of
        None \<Rightarrow> Some (None, w0, h0, report IoOpenFailure s0)
      | Some bs \<Rightarrow>
          (case fgetc (fopen s0 bs) of (c1, s1) \<Rightarrow>
             if c1 \<noteq> 80 then Some (None, w0, h0, report InvalidMagic s1)
             else (case fgetc s1 of (c2, s2) \<Rightarrow>
               if c2 = 49 then PbmAsciiLoad s2
               else if c2 = 50 then PgmAsciiLoad s2
               else if c2 = 51 then PpmAsciiLoad s2
               else if c2 = 52 then PbmRawLoad s2
               else if c2 = 53 then PgmRawLoad s2
               else if c2 = 54 then PpmRawLoad s2
               else if c2 = 55 then PamLoad s2 w0 h0 depth0 maxval0
               else Some (None, w0, h0, report InvalidMagic s2))))"

section \<open>Evaluation on concrete files; facts on characters\<close>

lemmas stream_defs = fopen_def fgetc_def feof_def ftell_def fseek_set_def fseek_back_def
  report_def isspace_def world_ok_def world_def

lemmas token_defs = skip_comment.simps FindToken_loop.simps FindToken_def TokenTerminator_def
  SkipToken.simps char_int_def TokenMatch_def GrabInt_loop.simps GrabInt_def int32_def

lemmas header_defs = pix_bytes_def malloc_def free_def ReadPamHeader_check_def
  ReadPamHeader_def ReadHeader_def ReadPbmHeader_def

lemma replicate_numeral: "replicate (numeral k) x = x # replicate (pred_numeral k) x"
  by (simp add: numeral_eq_Suc)

lemma list_update_Cons_numeral: "(x # xs)[numeral k := y] = x # xs[pred_numeral k := y]"
  by (simp add: numeral_eq_Suc)

lemmas loader_defs = GrabAsciiValue_def GrabBinValue_def pixel_loop.simps gray_pixel_def
  gray_alpha_pixel_def rgb_pixel_def rgba_pixel_def GrayscaleLoad_def ColorLoad_def finish_def
  PamLoad_def PpmRawLoad_def PgmRawLoad_def PbmRawLoad_loop.simps PbmRawLoad_def
  ppm_ascii_pixel_def pgm_ascii_pixel_def PpmAsciiLoad_def PgmAsciiLoad_def PbmAsciiLoad_def
  PnmLoad_def

lemmas pixel_defs = replicate_numeral list_update_Cons_numeral loader_defs

lemma of_char_nonneg: "(0::int) \<le> of_char c"
  by (cases c) simp

lemma of_char_ne_m1 [simp]: "of_char c \<noteq> (- 1 :: int)"
  using of_char_nonneg [of c] by simp

lemma of_char_less_256: "of_char c < (256 :: int)"
proof -
  have "int (of_char c) < 256" using nat_of_char_less_256 [of c] by linarith
  then show ?thesis by (simp add: of_nat_of_char)
qed

text \<open>A byte read by \<open>fgetc\<close> equals a character constant of the source (\<open>'#'\<close> is 35,
  \<open>'0'\<close> is 48, ...) iff it is that character.\<close>

lemma of_char_eq_int: "(of_char c = (k::int)) = (0 \<le> k \<and> k < 256 \<and> c = char_of k)"
proof
  assume "of_char c = k"
  then show "0 \<le> k \<and> k < 256 \<and> c = char_of k"
    using of_char_nonneg [of c] of_char_less_256 [of c] char_of_char [of c, where 'a = int]
    by auto
next
  assume "0 \<le> k \<and> k < 256 \<and> c = char_of k"
  then show "of_char c = k" by simp
qed

lemmas char_eq = of_char_eq_int char_of_def

lemma of_char_eq_10: "(of_char c = (10::int)) = (c = CHR 0x0A)"
  by (simp add: char_eq)

section \<open>Facts on the tokenizer\<close>

abbreviation unread :: "state \<Rightarrow> char list" where
  "unread s \<equiv> drop (pos s) (bytes s)"

lemma m1_ne_of_char [simp]: "(- 1 :: int) \<noteq> of_char c"
  using of_char_nonneg [of c] by simp

lemma fgetc_Cons:
  assumes "unread s = c # r"
  shows "fgetc s = (of_char c, s\<lparr>pos := pos s + 1\<rparr>)" and "drop (Suc (pos s)) (bytes s) = r"
proof -
  from assms have lt: "pos s < length (bytes s)"
    by (cases "pos s < length (bytes s)") auto
  from assms have "bytes s ! pos s = c" by (rule nth_via_drop)
  with lt show "fgetc s = (of_char c, s\<lparr>pos := pos s + 1\<rparr>)" by (simp add: fgetc_def)
  from assms show "drop (Suc (pos s)) (bytes s) = r"
    by (metis drop_Suc list.sel(3) tl_drop)
qed

lemma fgetc_Nil:
  assumes "unread s = []"
  shows "fgetc s = (- 1, s\<lparr>eof := True\<rparr>)"
  using assms by (simp add: fgetc_def)

lemma skip_comment_unread:
  "unread s = ds \<Longrightarrow> \<not> eof s \<Longrightarrow>
   skip_comment s =
     (if CHR 0x0A \<in> set ds
      then s\<lparr>pos := pos s + length (takeWhile (\<lambda>c. c \<noteq> CHR 0x0A) ds) + 1\<rparr>
      else s\<lparr>pos := pos s + length ds, eof := True\<rparr>)"
proof (induction ds arbitrary: s)
  case Nil
  then show ?case
    by (subst skip_comment.simps, subst skip_comment.simps)
       (simp add: fgetc_Nil feof_def)
next
  case (Cons c r)
  note g = fgetc_Cons [OF Cons.prems(1)]
  show ?case
  proof (cases "c = CHR 0x0A")
    case True
    with Cons.prems g show ?thesis
      by (subst skip_comment.simps) (simp add: feof_def)
  next
    case False
    have "unread (s\<lparr>pos := pos s + 1\<rparr>) = r" using g(2) by simp
    from Cons.IH [OF this] Cons.prems(2) False g(1) show ?thesis
      by (subst skip_comment.simps) (simp add: feof_def of_char_eq_10)
  qed
qed

text \<open>A character of a 7-bit word is compared as itself.\<close>

lemma char_int_ascii: "of_char ch < (128 :: int) \<Longrightarrow> char_int ch = of_char ch"
  by (simp add: char_int_def)

lemma of_char_eq_0: "(of_char c = (0::int)) = (c = CHR 0x00)"
  by (simp add: char_eq)

lemma TokenMatch_loop_frame:
  "TokenMatch_loop s str = (ok, s1) \<Longrightarrow> s1\<lparr>pos := p, eof := e\<rparr> = s\<lparr>pos := p, eof := e\<rparr>"
proof (induction str arbitrary: s)
  case Nil
  then show ?case by simp
next
  case (Cons ch str)
  show ?case
  proof (cases "ch = CHR 0x00 \<or> feof s")
    case True
    with Cons.prems show ?thesis by (auto split: if_splits)
  next
    case False
    obtain c s' where f: "fgetc s = (c, s')" by (cases "fgetc s")
    then have fr: "s'\<lparr>pos := p, eof := e\<rparr> = s\<lparr>pos := p, eof := e\<rparr>"
      by (auto simp: fgetc_def split: if_splits)
    show ?thesis
    proof (cases "c \<noteq> char_int ch")
      case True
      with Cons.prems False f fr show ?thesis by simp
    next
      case c: False
      with Cons.prems False f have "TokenMatch_loop s' str = (ok, s1)" by simp
      from Cons.IH [OF this] fr show ?thesis by simp
    qed
  qed
qed

lemma TokenMatch_loop_True:
  "TokenMatch_loop s str = (True, s1) \<Longrightarrow> str \<noteq> [] \<Longrightarrow>
   \<forall>c\<in>set str. (0::int) < of_char c \<and> of_char c < (128::int) \<Longrightarrow>
   \<not> eof s \<and> s1 = s\<lparr>pos := pos s + length str\<rparr> \<and> take (length str) (unread s) = str \<and>
   pos s + length str \<le> length (bytes s)"
proof (induction str arbitrary: s)
  case Nil
  then show ?case by simp
next
  case (Cons ch str)
  from Cons.prems(3) have nz: "ch \<noteq> CHR 0x00" and ci: "char_int ch = of_char ch"
    and rest: "\<forall>c\<in>set str. (0::int) < of_char c \<and> of_char c < (128::int)"
    by (auto simp: char_int_ascii)
  from Cons.prems(1) nz have ne: "\<not> eof s" by (auto simp: feof_def split: if_splits)
  show ?case
  proof (cases "unread s")
    case Nil
    with Cons.prems(1) ne nz ci show ?thesis by (simp add: fgetc_Nil feof_def)
  next
    case (Cons c r)
    note g = fgetc_Cons [OF Cons]
    from Cons.prems(1) ne nz ci g(1)
    have c: "c = ch" and l: "TokenMatch_loop (s\<lparr>pos := pos s + 1\<rparr>) str = (True, s1)"
      by (auto simp: feof_def split: if_splits)
    have lt: "pos s < length (bytes s)" using Cons by (cases "pos s < length (bytes s)") auto
    show ?thesis
    proof (cases "str = []")
      case True
      with l c Cons ne lt show ?thesis by simp
    next
      case False
      from Cons.IH [OF l False rest] g(2) c Cons ne show ?thesis by (simp add: take_Suc_Cons)
    qed
  qed
qed

lemma skip_comment_frame:
  "(skip_comment s)\<lparr>pos := p, eof := e\<rparr> = s\<lparr>pos := p, eof := e\<rparr>"
proof (induction s rule: skip_comment.induct)
  case (1 s)
  show ?case
  proof (cases "feof s")
    case True
    then show ?thesis by (subst skip_comment.simps) simp
  next
    case False
    obtain c s' where f: "fgetc s = (c, s')" by (cases "fgetc s")
    then have fr: "s'\<lparr>pos := p, eof := e\<rparr> = s\<lparr>pos := p, eof := e\<rparr>"
      by (auto simp: fgetc_def split: if_splits)
    show ?thesis
    proof (cases "c \<noteq> 10")
      case True
      from 1 [OF False f [symmetric] True] fr False f True show ?thesis
        by (subst skip_comment.simps) simp
    next
      case c: False
      with False f fr show ?thesis by (subst skip_comment.simps) simp
    qed
  qed
qed

lemma TokenTerminator_frame:
  "TokenTerminator s = (t, s1) \<Longrightarrow> s1\<lparr>pos := p, eof := e\<rparr> = s\<lparr>pos := p, eof := e\<rparr>"
proof -
  assume a: "TokenTerminator s = (t, s1)"
  obtain c s' where f: "fgetc s = (c, s')" by (cases "fgetc s")
  then have fr: "s'\<lparr>pos := p, eof := e\<rparr> = s\<lparr>pos := p, eof := e\<rparr>"
    by (auto simp: fgetc_def split: if_splits)
  from a f fr skip_comment_frame [where s = s' and p = p and e = e] show ?thesis
    by (auto simp: TokenTerminator_def split: if_splits)
qed

lemma TokenMatch_False:
  assumes "TokenMatch s str = (False, s')"
  shows "s' = s\<lparr>eof := False\<rparr>"
proof -
  obtain ok s1 where l: "TokenMatch_loop s str = (ok, s1)" by (cases "TokenMatch_loop s str")
  note f1 = TokenMatch_loop_frame [OF l, where p = "pos s" and e = False]
  show ?thesis
  proof (cases ok)
    case False
    with assms l f1 show ?thesis by (simp add: TokenMatch_def ftell_def fseek_set_def)
  next
    case True
    obtain t s2 where t: "TokenTerminator s1 = (t, s2)" by (cases "TokenTerminator s1")
    note f2 = TokenTerminator_frame [OF t, where p = "pos s" and e = False]
    from assms l True t f1 f2 show ?thesis
      by (simp add: TokenMatch_def ftell_def fseek_set_def split: if_splits)
  qed
qed

lemma TokenTerminator_unread:
  assumes "\<not> eof s"
  shows "TokenTerminator s =
     (case unread s of
        [] \<Rightarrow> (True, s\<lparr>eof := True\<rparr>)
      | c # r \<Rightarrow>
          if c = CHR ''#'' then
            (True, if CHR 0x0A \<in> set r
                   then s\<lparr>pos := pos s + length (takeWhile (\<lambda>c. c \<noteq> CHR 0x0A) r) + 2\<rparr>
                   else s\<lparr>pos := pos s + length r + 1, eof := True\<rparr>)
          else (isspace (of_char c), s\<lparr>pos := pos s + 1\<rparr>))"
proof (cases "unread s")
  case Nil
  then show ?thesis by (simp add: TokenTerminator_def fgetc_Nil)
next
  case (Cons c r)
  note g = fgetc_Cons [OF Cons]
  have u: "unread (s\<lparr>pos := pos s + 1\<rparr>) = r" using g(2) by simp
  have ne: "\<not> eof (s\<lparr>pos := pos s + 1\<rparr>)" using assms by simp
  show ?thesis
    using Cons g(1) skip_comment_unread [OF u ne]
    by (simp add: TokenTerminator_def char_eq)
qed

lemma TokenMatch_True:
  assumes "TokenMatch s str = (True, s')" and "str \<noteq> []"
    and "\<forall>c\<in>set str. (0::int) < of_char c \<and> of_char c < (128::int)"
  shows "\<exists>r. unread s = str @ r \<and>
           (case r of
              [] \<Rightarrow> s' = s\<lparr>pos := pos s + length str, eof := True\<rparr>
            | c # r' \<Rightarrow>
                if c = CHR ''#'' then
                  s' = (if CHR 0x0A \<in> set r'
                        then s\<lparr>pos := pos s + length str +
                                        length (takeWhile (\<lambda>c. c \<noteq> CHR 0x0A) r') + 2\<rparr>
                        else s\<lparr>pos := pos s + length str + length r' + 1, eof := True\<rparr>)
                else isspace (of_char c) \<and> s' = s\<lparr>pos := pos s + length str + 1\<rparr>)"
proof -
  obtain ok s1 where l: "TokenMatch_loop s str = (ok, s1)" by (cases "TokenMatch_loop s str")
  with assms have ok: "ok" by (auto simp: TokenMatch_def Let_def split: if_splits)
  note L = TokenMatch_loop_True [OF l [unfolded eqTrueI [OF ok]] assms(2) assms(3)]
  then have ne: "\<not> eof s1" and s1: "s1 = s\<lparr>pos := pos s + length str\<rparr>" by simp_all
  from L have u: "unread s = str @ drop (length str) (unread s)"
    by (metis append_take_drop_id)
  have u1: "unread s1 = drop (length str) (unread s)" using s1 by (simp add: add.commute)
  from assms l ok have t: "TokenTerminator s1 = (True, s')"
    by (auto simp: TokenMatch_def Let_def split: if_splits prod.splits)
  show ?thesis
  proof (intro exI conjI)
    show "unread s = str @ drop (length str) (unread s)" by (rule u)
    from t show "case drop (length str) (unread s) of
              [] \<Rightarrow> s' = s\<lparr>pos := pos s + length str, eof := True\<rparr>
            | c # r' \<Rightarrow>
                if c = CHR ''#'' then
                  s' = (if CHR 0x0A \<in> set r'
                        then s\<lparr>pos := pos s + length str +
                                        length (takeWhile (\<lambda>c. c \<noteq> CHR 0x0A) r') + 2\<rparr>
                        else s\<lparr>pos := pos s + length str + length r' + 1, eof := True\<rparr>)
                else isspace (of_char c) \<and> s' = s\<lparr>pos := pos s + length str + 1\<rparr>"
      unfolding TokenTerminator_unread [OF ne] u1
      by (auto simp: s1 split: list.splits if_splits)
  qed
qed

section \<open>Facts on the end-of-file indicator and on the headers\<close>

text \<open>The end-of-file indicator is set only by a read at the end of the stream and is
  cleared by every seek: when it is set, nothing is left to read.\<close>

definition eof_ok :: "state \<Rightarrow> bool" where
  "eof_ok s = (eof s \<longrightarrow> length (bytes s) \<le> pos s)"

lemma eof_ok_fgetc: "eof_ok s \<Longrightarrow> fgetc s = (c, s') \<Longrightarrow> eof_ok s'"
  by (auto simp: eof_ok_def fgetc_def split: if_splits)

lemma eof_ok_fields [simp]:
  "eof_ok (s\<lparr>stderr := e\<rparr>) = eof_ok s"
  "eof_ok (s\<lparr>mallocs := m\<rparr>) = eof_ok s"
  "eof_ok (s\<lparr>frees := k\<rparr>) = eof_ok s"
  "eof_ok (s\<lparr>pos := p, eof := False\<rparr>)"
  "eof_ok (s\<lparr>eof := False\<rparr>)"
  by (simp_all add: eof_ok_def)

lemma eof_ok_unread: "eof_ok s \<Longrightarrow> unread s \<noteq> [] \<Longrightarrow> \<not> eof s"
  by (auto simp: eof_ok_def)

lemma eof_ok_skip_comment: "eof_ok s \<Longrightarrow> eof_ok (skip_comment s)"
proof (induction s rule: skip_comment.induct)
  case (1 s)
  show ?case
  proof (cases "feof s")
    case True
    with "1.prems" show ?thesis by (subst skip_comment.simps) simp
  next
    case False
    obtain c s' where f: "fgetc s = (c, s')" by (cases "fgetc s")
    note ok = eof_ok_fgetc [OF "1.prems" f]
    show ?thesis
    proof (cases "c \<noteq> 10")
      case True
      from "1.IH" [OF False f [symmetric] True ok] False f True show ?thesis
        by (subst skip_comment.simps) simp
    next
      case c: False
      with False f ok show ?thesis by (subst skip_comment.simps) simp
    qed
  qed
qed

lemma eof_ok_FindToken_loop: "eof_ok s \<Longrightarrow> eof_ok (FindToken_loop c s)"
proof (induction c s rule: FindToken_loop.induct)
  case (1 c s)
  show ?case
  proof (cases "c \<noteq> - 1")
    case False
    with "1.prems" show ?thesis by (subst FindToken_loop.simps) simp
  next
    case True
    note ne = this
    show ?thesis
    proof (cases "c = 35")
      case True
      obtain c' s' where f: "fgetc (skip_comment s) = (c', s')"
        by (cases "fgetc (skip_comment s)")
      note ok = eof_ok_fgetc [OF eof_ok_skip_comment [OF "1.prems"] f]
      from "1.IH"(1) [OF ne True f [symmetric] ok] ne True f show ?thesis
        by (subst FindToken_loop.simps) simp
    next
      case False
      note n35 = this
      show ?thesis
      proof (cases "isspace c")
        case False
        with ne n35 show ?thesis
          by (subst FindToken_loop.simps) (simp add: fseek_back_def)
      next
        case True
        obtain c' s' where f: "fgetc s = (c', s')" by (cases "fgetc s")
        note ok = eof_ok_fgetc [OF "1.prems" f]
        have sp: "\<not> \<not> isspace c" using True by simp
        from "1.IH"(2) [OF ne n35 sp f [symmetric] ok] ne n35 True f show ?thesis
          by (subst FindToken_loop.simps) simp
      qed
    qed
  qed
qed

lemma eof_ok_FindToken: "eof_ok s \<Longrightarrow> eof_ok (FindToken s)"
proof -
  assume a: "eof_ok s"
  obtain c s' where f: "fgetc s = (c, s')" by (cases "fgetc s")
  from eof_ok_FindToken_loop [OF eof_ok_fgetc [OF a f]] f show ?thesis
    by (simp add: FindToken_def)
qed

lemma eof_ok_GrabInt_loop: "eof_ok s \<Longrightarrow> GrabInt_loop c n s = (r, s') \<Longrightarrow> eof_ok s'"
proof (induction c n s rule: GrabInt_loop.induct)
  case (1 c n s)
  show ?case
  proof (cases "c \<noteq> - 1 \<and> \<not> isspace c \<and> c \<noteq> 35")
    case False
    with "1.prems" show ?thesis by (subst (asm) GrabInt_loop.simps) auto
  next
    case True
    note run = this
    show ?thesis
    proof (cases "48 \<le> c \<and> c \<le> 57")
      case False
      with "1.prems" run show ?thesis
        by (subst (asm) GrabInt_loop.simps) (auto simp: report_def)
    next
      case True
      obtain c' s1 where f: "fgetc s = (c', s1)" by (cases "fgetc s")
      note ok = eof_ok_fgetc [OF "1.prems"(1) f]
      from "1.prems"(2) run True f
      have "GrabInt_loop c' (int32 (n * 10 + (c - 48))) s1 = (r, s')"
        by (subst (asm) GrabInt_loop.simps) simp
      from "1.IH" [OF run True f [symmetric] ok this] show ?thesis .
    qed
  qed
qed

lemma eof_ok_skip_line:
  assumes a: "skip_line s = Some s'"
  shows "eof_ok s \<longrightarrow> eof_ok s'"
proof (rule skip_line.raw_induct [where P = "\<lambda>s s'. eof_ok s \<longrightarrow> eof_ok s'", OF _ a])
  fix f :: "state \<Rightarrow> state option" and s y
  assume IH: "\<And>x y. f x = Some y \<Longrightarrow> eof_ok x \<longrightarrow> eof_ok y"
    and step: "(case fgetc s of (c, s') \<Rightarrow> if c \<noteq> 10 then f s' else Some s') = Some y"
  obtain c s1 where g: "fgetc s = (c, s1)" by (cases "fgetc s")
  show "eof_ok s \<longrightarrow> eof_ok y"
  proof
    assume ok: "eof_ok s"
    note ok1 = eof_ok_fgetc [OF ok g]
    show "eof_ok y"
    proof (cases "c \<noteq> 10")
      case True
      with step g have "f s1 = Some y" by simp
      from IH [OF this] ok1 show ?thesis by simp
    next
      case False
      with step g ok1 show ?thesis by simp
    qed
  qed
qed

lemma eof_ok_GrabInt:
  assumes "GrabInt s = Some (n, s')" and "eof_ok s"
  shows "eof_ok s'"
proof -
  define s1 where "s1 = FindToken s"
  have ok1: "eof_ok s1" using assms(2) by (simp add: s1_def eof_ok_FindToken)
  show ?thesis
  proof (cases "feof s1")
    case True
    with assms(1) ok1 show ?thesis by (auto simp: GrabInt_def s1_def Let_def report_def)
  next
    case False
    obtain c s2 where f: "fgetc s1 = (c, s2)" by (cases "fgetc s1")
    note ok2 = eof_ok_fgetc [OF ok1 f]
    obtain r s3 where l: "GrabInt_loop c 0 s2 = (r, s3)" by (cases "GrabInt_loop c 0 s2")
    note ok3 = eof_ok_GrabInt_loop [OF ok2 l]
    show ?thesis
    proof (cases r)
      case None
      with assms(1) False f l ok3 show ?thesis
        by (simp add: GrabInt_def s1_def [symmetric] Let_def)
    next
      case (Some cn)
      obtain c' k where cn: "cn = (c', k)" by (cases cn)
      show ?thesis
      proof (cases "c' = 35")
        case True
        with assms(1) False f l Some cn obtain s4 where
          sl: "skip_line s3 = Some s4" and e: "s' = s4"
          by (auto simp: GrabInt_def s1_def [symmetric] Let_def split: bind_splits)
        from eof_ok_skip_line [OF sl] ok3 e show ?thesis by simp
      next
        case False
        with assms(1) \<open>\<not> feof s1\<close> f l Some cn ok3 show ?thesis
          by (simp add: GrabInt_def s1_def [symmetric] Let_def)
      qed
    qed
  qed
qed

text \<open>What a header reader has done when it returns a buffer.\<close>

lemma int32_less: "int32 x < 2 ^ 31"
  unfolding int32_def by (rule signed_take_bit_int_less_exp)

lemma int32_self: "0 \<le> x \<Longrightarrow> x < 2 ^ 31 \<Longrightarrow> int32 x = x"
  unfolding int32_def by (rule signed_take_bit_int_eq_self) simp_all

lemma pix_bytes_div4: "0 \<le> int32 (w * h) \<Longrightarrow> pix_bytes w h div 4 = nat (int32 (w * h))"
proof -
  assume a: "0 \<le> int32 (w * h)"
  have "int32 (w * h) * 4 < 2 ^ 64" using int32_less [of "w * h"] by simp
  with a have "(int32 (w * h) * 4) mod 2 ^ 64 = int32 (w * h) * 4" by simp
  with a show ?thesis by (simp add: pix_bytes_def)
qed

lemma buffer_holds_size:
  "nat (int32 (w * h)) \<le> length (replicate (pix_bytes w h div 4) (None :: pixel option))"
  by (cases "0 \<le> int32 (w * h)") (simp_all add: pix_bytes_div4)

lemma malloc_Some:
  "malloc s n = (Some pix, s') \<Longrightarrow>
   pix = replicate (n div 4) None \<and> s' = s\<lparr>mallocs := mallocs s + 1\<rparr>"
  by (auto simp: malloc_def split: if_splits)

lemma ReadPbmHeader_Some:
  assumes "ReadPbmHeader s = Some (Some pix0, w, h, s1)"
  shows "\<exists>sa sb. GrabInt s = Some (w, sa) \<and> GrabInt sa = Some (h, sb) \<and> 1 \<le> w \<and> 1 \<le> h \<and>
           pix0 = replicate (pix_bytes w h div 4) None \<and> s1 = sb\<lparr>mallocs := mallocs sb + 1\<rparr>"
  using assms
  by (auto simp: ReadPbmHeader_def split: bind_splits if_splits prod.splits option.splits
      dest: malloc_Some)

lemma ReadHeader_Some:
  assumes "ReadHeader s = Some (Some (pix0, m), w, h, s1)"
  shows "\<exists>sa sb sc. GrabInt s = Some (w, sa) \<and> GrabInt sa = Some (h, sb) \<and>
           GrabInt sb = Some (m, sc) \<and> 1 \<le> w \<and> 1 \<le> h \<and> 1 \<le> m \<and> m \<le> 65535 \<and>
           pix0 = replicate (pix_bytes w h div 4) None \<and> s1 = sc\<lparr>mallocs := mallocs sc + 1\<rparr>"
  using assms
  by (auto simp: ReadHeader_def split: bind_splits if_splits prod.splits option.splits
      dest: malloc_Some)

lemma ReadPamHeader_Some:
  assumes "ReadPamHeader s w0 h0 d0 m0 = Some (Some pix0, w, h, d, m, s1)"
  shows "\<exists>sb. ReadPamHeader_loop s w0 h0 d0 m0 = Some (True, w, h, d, m, sb) \<and>
           1 \<le> d \<and> d \<le> 4 \<and> 1 \<le> m \<and> m \<le> 65535 \<and> 1 \<le> w \<and> 1 \<le> h \<and>
           pix0 = replicate (pix_bytes w h div 4) None \<and> s1 = sb\<lparr>mallocs := mallocs sb + 1\<rparr>"
  using assms
  by (auto simp: ReadPamHeader_def ReadPamHeader_check_def
      split: bind_splits if_splits prod.splits option.splits dest: malloc_Some)

lemma eof_ok_ReadPbmHeader:
  assumes "ReadPbmHeader s = Some (Some pix0, w, h, s1)" and "eof_ok s"
  shows "eof_ok s1"
proof -
  from ReadPbmHeader_Some [OF assms(1)] obtain sa sb where
    "GrabInt s = Some (w, sa)" "GrabInt sa = Some (h, sb)" "s1 = sb\<lparr>mallocs := mallocs sb + 1\<rparr>"
    by blast
  with assms(2) show ?thesis by (auto dest: eof_ok_GrabInt)
qed

lemma eof_ok_ReadHeader:
  assumes "ReadHeader s = Some (Some (pix0, m), w, h, s1)" and "eof_ok s"
  shows "eof_ok s1"
proof -
  from ReadHeader_Some [OF assms(1)] obtain sa sb sc where
    "GrabInt s = Some (w, sa)" "GrabInt sa = Some (h, sb)" "GrabInt sb = Some (m, sc)"
    "s1 = sc\<lparr>mallocs := mallocs sc + 1\<rparr>"
    by blast
  with assms(2) show ?thesis by (auto dest: eof_ok_GrabInt)
qed

lemma eof_ok_TokenTerminator: "eof_ok s \<Longrightarrow> TokenTerminator s = (t, s') \<Longrightarrow> eof_ok s'"
proof -
  assume a: "eof_ok s" and b: "TokenTerminator s = (t, s')"
  obtain c s1 where f: "fgetc s = (c, s1)" by (cases "fgetc s")
  note ok = eof_ok_fgetc [OF a f]
  from b f ok eof_ok_skip_comment [OF ok] show ?thesis
    by (auto simp: TokenTerminator_def split: if_splits)
qed

lemma eof_ok_SkipToken: "eof_ok s \<Longrightarrow> eof_ok (SkipToken s)"
proof (induction s rule: SkipToken.induct)
  case (1 s)
  obtain t s' where tt: "TokenTerminator s = (t, s')" by (cases "TokenTerminator s")
  note ok = eof_ok_TokenTerminator [OF "1.prems" tt]
  show ?case
  proof (cases t)
    case True
    with tt ok show ?thesis by (subst SkipToken.simps) simp
  next
    case False
    from "1.IH" [OF tt [symmetric] False ok] tt False show ?thesis
      by (subst SkipToken.simps) simp
  qed
qed

lemma eof_ok_TokenMatch_loop:
  "eof_ok s \<Longrightarrow> TokenMatch_loop s str = (ok, s1) \<Longrightarrow> eof_ok s1"
proof (induction str arbitrary: s)
  case Nil
  then show ?case by simp
next
  case (Cons ch str)
  show ?case
  proof (cases "ch = CHR 0x00 \<or> feof s")
    case True
    with Cons.prems show ?thesis by (auto split: if_splits)
  next
    case False
    obtain c s' where f: "fgetc s = (c, s')" by (cases "fgetc s")
    note ok' = eof_ok_fgetc [OF Cons.prems(1) f]
    show ?thesis
    proof (cases "c \<noteq> char_int ch")
      case True
      with Cons.prems False f ok' show ?thesis by simp
    next
      case c: False
      with Cons.prems False f have "TokenMatch_loop s' str = (ok, s1)" by simp
      from Cons.IH [OF ok' this] show ?thesis .
    qed
  qed
qed

lemma eof_ok_TokenMatch: "eof_ok s \<Longrightarrow> TokenMatch s str = (m, s') \<Longrightarrow> eof_ok s'"
proof -
  assume a: "eof_ok s" and b: "TokenMatch s str = (m, s')"
  obtain ok s1 where l: "TokenMatch_loop s str = (ok, s1)" by (cases "TokenMatch_loop s str")
  note ok1 = eof_ok_TokenMatch_loop [OF a l]
  obtain t s2 where t: "TokenTerminator s1 = (t, s2)" by (cases "TokenTerminator s1")
  note ok2 = eof_ok_TokenTerminator [OF ok1 t]
  from b l t ok2 show ?thesis
    by (auto simp: TokenMatch_def Let_def fseek_set_def split: if_splits)
qed

lemma GrabInt_then_cases:
  assumes "GrabInt s1 \<bind> (\<lambda>(d, s'). if d < 0 then Some (r d s') else g s' d) = Some y"
    and "eof_ok s1"
  obtains (stop) d s' where "eof_ok s'" and "y = r d s'"
    | (continue) d s' where "eof_ok s'" and "g s' d = Some y"
proof -
  from assms(1) obtain d s' where gi: "GrabInt s1 = Some (d, s')"
    and rest: "(if d < 0 then Some (r d s') else g s' d) = Some y"
    by (auto split: bind_splits)
  note ok = eof_ok_GrabInt [OF gi assms(2)]
  show thesis
  proof (cases "d < 0")
    case True
    with rest have "y = r d s'" by simp
    with ok show thesis by (rule stop)
  next
    case False
    with rest have "g s' d = Some y" by simp
    with ok show thesis by (rule continue)
  qed
qed

lemma eof_ok_ReadPamHeader_loop:
  assumes a: "ReadPamHeader_loop s w h d m = Some (ok, w', h', d', m', s')"
  shows "eof_ok s \<longrightarrow> eof_ok s'"
proof -
  have "eof_ok s \<longrightarrow> eof_ok (snd (snd (snd (snd (snd (ok, w', h', d', m', s'))))))"
  proof (rule ReadPamHeader_loop.raw_induct
    [where P = "\<lambda>s w h d m r. eof_ok s \<longrightarrow> eof_ok (snd (snd (snd (snd (snd r)))))", OF _ a])
  fix f :: "state \<Rightarrow> int \<Rightarrow> int \<Rightarrow> int \<Rightarrow> int \<Rightarrow> (bool \<times> int \<times> int \<times> int \<times> int \<times> state) option"
    and s w h depth maxval y
  assume IH: "\<And>s w h depth maxval y.
           f s w h depth maxval = Some y \<Longrightarrow> eof_ok s \<longrightarrow> eof_ok (snd (snd (snd (snd (snd y)))))"
    and step: "(case TokenMatch (FindToken s) ''DEPTH'' of
      (m1, s1) \<Rightarrow>
        if m1
        then GrabInt s1 \<bind>
             (\<lambda>(d, s').
                 if d < 0 then Some (False, - 1, - 1, d, maxval, s')
                 else f s' w h d maxval)
        else case TokenMatch s1 ''MAXVAL'' of
             (m2, s2) \<Rightarrow>
               if m2
               then GrabInt s2 \<bind>
                    (\<lambda>(m, s').
                        if m < 0 then Some (False, - 1, - 1, depth, m, s')
                        else f s' w h depth m)
               else case TokenMatch s2 ''HEIGHT'' of
                    (m3, s3) \<Rightarrow>
                      if m3
                      then GrabInt s3 \<bind>
                           (\<lambda>(h', s').
                               if h' < 0
                               then Some (False, - 1, h', depth, maxval, s')
                               else f s' w h' depth maxval)
                      else case TokenMatch s3 ''WIDTH'' of
                           (m4, s4) \<Rightarrow>
                             if m4
                             then GrabInt s4 \<bind>
                                  (\<lambda>(w', s').
                                      if w' < 0 then Some (False, w', - 1, depth, maxval, s')
                                      else f s' w' h depth maxval)
                             else case TokenMatch s4 ''ENDHDR'' of
                                  (m5, s5) \<Rightarrow>
                                    if m5
                                    then Some (True, w, h, depth, maxval, s5)
                                    else f (SkipToken (FindToken (SkipToken s5))) w h depth maxval) =
     Some y"
  show "eof_ok s \<longrightarrow> eof_ok (snd (snd (snd (snd (snd y)))))"
  proof
    assume ok: "eof_ok s"
    note ok0 = eof_ok_FindToken [OF ok]
    obtain m1 s1 where t1: "TokenMatch (FindToken s) ''DEPTH'' = (m1, s1)"
      by (cases "TokenMatch (FindToken s) ''DEPTH''")
    note ok1 = eof_ok_TokenMatch [OF ok0 t1]
    obtain m2 s2 where t2: "TokenMatch s1 ''MAXVAL'' = (m2, s2)"
      by (cases "TokenMatch s1 ''MAXVAL''")
    note ok2 = eof_ok_TokenMatch [OF ok1 t2]
    obtain m3 s3 where t3: "TokenMatch s2 ''HEIGHT'' = (m3, s3)"
      by (cases "TokenMatch s2 ''HEIGHT''")
    note ok3 = eof_ok_TokenMatch [OF ok2 t3]
    obtain m4 s4 where t4: "TokenMatch s3 ''WIDTH'' = (m4, s4)"
      by (cases "TokenMatch s3 ''WIDTH''")
    note ok4 = eof_ok_TokenMatch [OF ok3 t4]
    obtain m5 s5 where t5: "TokenMatch s4 ''ENDHDR'' = (m5, s5)"
      by (cases "TokenMatch s4 ''ENDHDR''")
    note ok5 = eof_ok_TokenMatch [OF ok4 t5]
    note ok6 = eof_ok_SkipToken [OF eof_ok_FindToken [OF eof_ok_SkipToken [OF ok5]]]
    show "eof_ok (snd (snd (snd (snd (snd y)))))"
    proof (cases m1)
      case True
      with step t1
      have "GrabInt s1 \<bind> (\<lambda>(d, s'). if d < 0 then Some (False, - 1, - 1, d, maxval, s')
                                      else f s' w h d maxval) = Some y"
        by simp
      then show ?thesis
        using ok1 by (cases rule: GrabInt_then_cases) (auto dest: IH)
    next
      case n1: False
      show ?thesis
      proof (cases m2)
        case True
        with step t1 t2 n1
        have "GrabInt s2 \<bind> (\<lambda>(m, s'). if m < 0 then Some (False, - 1, - 1, depth, m, s')
                                        else f s' w h depth m) = Some y"
          by simp
        then show ?thesis
          using ok2 by (cases rule: GrabInt_then_cases) (auto dest: IH)
      next
        case n2: False
        show ?thesis
        proof (cases m3)
          case True
          with step t1 t2 t3 n1 n2
          have "GrabInt s3 \<bind> (\<lambda>(h', s'). if h' < 0 then Some (False, - 1, h', depth, maxval, s')
                                          else f s' w h' depth maxval) = Some y"
            by simp
          then show ?thesis
            using ok3 by (cases rule: GrabInt_then_cases) (auto dest: IH)
        next
          case n3: False
          show ?thesis
          proof (cases m4)
            case True
            with step t1 t2 t3 t4 n1 n2 n3
            have "GrabInt s4 \<bind> (\<lambda>(w', s'). if w' < 0 then Some (False, w', - 1, depth, maxval, s')
                                            else f s' w' h depth maxval) = Some y"
              by simp
            then show ?thesis
              using ok4 by (cases rule: GrabInt_then_cases) (auto dest: IH)
          next
            case n4: False
            show ?thesis
            proof (cases m5)
              case True
              with step t1 t2 t3 t4 t5 n1 n2 n3 n4 ok5 show ?thesis by auto
            next
              case False
              with step t1 t2 t3 t4 t5 n1 n2 n3 n4
              have "f (SkipToken (FindToken (SkipToken s5))) w h depth maxval = Some y" by simp
              from IH [OF this] ok6 show ?thesis by simp
            qed
          qed
        qed
      qed
    qed
  qed
qed
  then show ?thesis by simp
qed

lemma eof_ok_ReadPamHeader:
  assumes "ReadPamHeader s w0 h0 d0 m0 = Some (Some pix0, w, h, d, m, s1)" and "eof_ok s"
  shows "eof_ok s1"
proof -
  from ReadPamHeader_Some [OF assms(1)] obtain sb where
    "ReadPamHeader_loop s w0 h0 d0 m0 = Some (True, w, h, d, m, sb)"
    "s1 = sb\<lparr>mallocs := mallocs sb + 1\<rparr>"
    by blast
  with assms(2) eof_ok_ReadPamHeader_loop [of s w0 h0 d0 m0 True w h d m sb]
  show ?thesis by simp
qed

section \<open>Facts on the pixel loops\<close>

text \<open>Notation for the claims: the bytes of a raw sample under \<open>maxval\<close>, the raw sample
  that starts at a position, a sample scaled to 0..255, and a pixel packed from the samples
  of its one to four channels.\<close>

definition bps :: "int \<Rightarrow> nat" where
  "bps m = (if m > 255 then 2 else 1)"

definition raw_sample :: "int \<Rightarrow> char list \<Rightarrow> nat \<Rightarrow> int" where
  "raw_sample m bs p =
     (if m > 255 then of_char (bs ! p) * 256 + of_char (bs ! Suc p) else of_char (bs ! p))"

abbreviation scale :: "int \<Rightarrow> int \<Rightarrow> pixel" where
  "scale m v \<equiv> word_of_int (v * 255 div m)"

abbreviation rgba :: "pixel \<Rightarrow> pixel \<Rightarrow> pixel \<Rightarrow> pixel \<Rightarrow> pixel" where
  "rgba r g b a \<equiv> push_bit 24 r OR push_bit 16 g OR push_bit 8 b OR a"

definition pack :: "int \<Rightarrow> (nat \<Rightarrow> pixel) \<Rightarrow> pixel" where
  "pack depth f =
     (if depth = 1 then rgba (f 0) (f 0) (f 0) 0xff
      else if depth = 2 then rgba (f 0) (f 0) (f 0) (f 1)
      else if depth = 3 then rgba (f 0) (f 1) (f 2) 0xff
      else rgba (f 0) (f 1) (f 2) (f 3))"

lemma uint_small: "0 \<le> v \<Longrightarrow> v < 2 ^ 32 \<Longrightarrow> uint (word_of_int v :: 32 word) = v"
  by (simp add: uint_word_of_int)

lemma scale_word:
  assumes "0 \<le> v" "v \<le> m" "1 \<le> m" "m \<le> 65535"
  shows "((word_of_int v :: 32 word) * 255) div word_of_int m = word_of_int (v * 255 div m)"
proof -
  have v: "v * 255 < 2 ^ 32" using assms by simp
  have m: "m < 2 ^ 32" using assms by simp
  have "(word_of_int v :: 32 word) * 255 = word_of_int (v * 255)" by simp
  moreover have "uint (word_of_int (v * 255) :: 32 word) = v * 255"
    using assms v by (intro uint_small) simp_all
  moreover have "uint (word_of_int m :: 32 word) = m" using assms m by (intro uint_small) simp_all
  ultimately show ?thesis
    by (simp add: word_div_def)
qed

lemma less_word:
  assumes "0 \<le> v" "v < 2 ^ 32" "0 \<le> m" "m < 2 ^ 32"
  shows "((word_of_int m :: 32 word) < word_of_int v) = (m < v)"
  using assms by (simp add: word_less_def uint_small)

lemma two_bytes:
  assumes "0 \<le> a" "a < 256" "0 \<le> b" "b < 256"
  shows "push_bit 8 (word_of_int a :: 32 word) OR word_of_int b = word_of_int (a * 256 + b)"
proof -
  have tb: "take_bit 8 b = b" using assms by (simp add: take_bit_int_eq_self)
  have nb: "\<not> bit b n" if "8 \<le> n" for n
  proof -
    from that have "\<not> bit (take_bit 8 b) n" by (simp add: bit_take_bit_iff)
    then show ?thesis by (simp add: tb)
  qed
  have "push_bit 8 a AND b = 0"
    by (auto simp: bit_eq_iff bit_simps dest: nb)
  then have "push_bit 8 a OR b = push_bit 8 a + b"
    by (rule disjunctive_add_eq_or [symmetric])
  then have "a * 256 + b = push_bit 8 a OR b" by (simp add: push_bit_eq_mult)
  then show ?thesis by (simp add: of_int_or_eq of_int_push_bit)
qed

text \<open>A scaled sample is a byte.\<close>

lemma scale_byte:
  "0 \<le> v \<Longrightarrow> v \<le> m \<Longrightarrow> 1 \<le> m \<Longrightarrow> 0 \<le> v * 255 div m \<and> v * 255 div m \<le> 255"
  for v m :: int
proof -
  assume a: "0 \<le> v" "v \<le> m" "1 \<le> m"
  then have "v * 255 \<le> 255 * m" by simp
  then have "v * 255 div m \<le> 255 * m div m" by (rule zdiv_mono1) (use a in simp)
  with a show ?thesis by (simp add: pos_imp_zdiv_nonneg_iff)
qed

text \<open>\<open>GrabBinValue\<close> where the stream holds the whole sample and the sample is at most
  \<open>maxval\<close>.\<close>

lemma GrabBinValue_sample:
  assumes "\<not> eof s" and "pos s + bps m \<le> length (bytes s)" and "1 \<le> m" and "m \<le> 65535"
    and "raw_sample m (bytes s) (pos s) \<le> m"
  shows "GrabBinValue m s =
           (Some (scale m (raw_sample m (bytes s) (pos s))), s\<lparr>pos := pos s + bps m\<rparr>)"
proof (cases "m > 255")
  case False
  define a :: int where "a = of_char (bytes s ! pos s)"
  have a: "0 \<le> a" "a < 256" by (simp_all add: a_def of_char_nonneg of_char_less_256)
  from False assms have lt: "pos s < length (bytes s)" and am: "a \<le> m"
    by (simp_all add: a_def bps_def raw_sample_def)
  have g: "fgetc s = (a, s\<lparr>pos := pos s + 1\<rparr>)" using lt by (simp add: fgetc_def a_def)
  have cmp: "\<not> (word_of_int m :: 32 word) < word_of_int a"
    using a assms(3,4) am by (subst less_word) simp_all
  show ?thesis
    using False assms(1) g cmp scale_word [OF a(1) am assms(3,4)]
    by (simp add: GrabBinValue_def feof_def a_def [symmetric] bps_def raw_sample_def)
next
  case True
  define a :: int where "a = of_char (bytes s ! pos s)"
  define b :: int where "b = of_char (bytes s ! Suc (pos s))"
  have a: "0 \<le> a" "a < 256" by (simp_all add: a_def of_char_nonneg of_char_less_256)
  have b: "0 \<le> b" "b < 256" by (simp_all add: b_def of_char_nonneg of_char_less_256)
  from True assms have lt: "Suc (pos s) < length (bytes s)" and vm: "a * 256 + b \<le> m"
    by (simp_all add: a_def b_def bps_def raw_sample_def)
  have g1: "fgetc s = (a, s\<lparr>pos := pos s + 1\<rparr>)" using lt by (simp add: fgetc_def a_def)
  have g2: "fgetc (s\<lparr>pos := pos s + 1\<rparr>) = (b, s\<lparr>pos := pos s + 2\<rparr>)"
    using lt by (simp add: fgetc_def b_def)
  have v0: "0 \<le> a * 256 + b" using a b by simp
  have cmp: "\<not> (word_of_int m :: 32 word) < word_of_int (a * 256 + b)"
    using v0 vm assms(3,4) by (subst less_word) simp_all
  show ?thesis
    using True assms(1) g1 g2 cmp two_bytes [OF a b] scale_word [OF v0 vm assms(3,4)]
    by (simp add: GrabBinValue_def feof_def a_def [symmetric] b_def [symmetric] bps_def
        raw_sample_def)
qed

text \<open>\<open>GrabAsciiValue\<close> where \<open>GrabInt\<close> returns a number from 0 to \<open>maxval\<close>.\<close>

lemma GrabAsciiValue_sample:
  assumes "GrabInt s = Some (v, s')" and "0 \<le> v" and "v \<le> m" and "1 \<le> m" and "m \<le> 65535"
  shows "GrabAsciiValue m s = Some (Some (scale m v), s')"
  using assms scale_word [OF assms(2-5)] by (simp add: GrabAsciiValue_def)

text \<open>The loop shared by the gray and colour loaders, when every pixel is read: \<open>st j\<close> is
  the state before pixel \<open>j\<close> and \<open>px j\<close> the pixel read there.\<close>

lemma pixel_loop_seq:
  assumes "\<And>j. i \<le> j \<Longrightarrow> j < nat sz \<Longrightarrow> rd (st j) = Some (Some (px j), st (Suc j))"
    and "i \<le> nat sz" and "nat sz \<le> length pix"
  shows "\<exists>pix'. pixel_loop rd sz (int i) pix (st i) = Some (True, pix', st (nat sz)) \<and>
           length pix' = length pix \<and>
           (\<forall>j. i \<le> j \<and> j < nat sz \<longrightarrow> pix' ! j = Some (px j)) \<and>
           (\<forall>j < i. pix' ! j = pix ! j)"
  using assms
proof (induction "nat sz - i" arbitrary: i pix)
  case 0
  then have "i = nat sz" by simp
  then show ?case by (subst pixel_loop.simps) auto
next
  case (Suc k)
  then have lt: "i < nat sz" by simp
  then have lti: "int i < sz" by linarith
  have r: "rd (st i) = Some (Some (px i), st (Suc i))" using Suc.prems(1) lt by simp
  have e: "pixel_loop rd sz (int i) pix (st i) =
           pixel_loop rd sz (int (Suc i)) (pix[i := Some (px i)]) (st (Suc i))"
    using lti r by (subst pixel_loop.simps) (simp add: add.commute)
  have k: "k = nat sz - Suc i" using Suc.hyps(2) by simp
  have "\<exists>pix'. pixel_loop rd sz (int (Suc i)) (pix[i := Some (px i)]) (st (Suc i)) =
             Some (True, pix', st (nat sz)) \<and>
           length pix' = length (pix[i := Some (px i)]) \<and>
           (\<forall>j. Suc i \<le> j \<and> j < nat sz \<longrightarrow> pix' ! j = Some (px j)) \<and>
           (\<forall>j < Suc i. pix' ! j = (pix[i := Some (px i)]) ! j)"
  proof (rule Suc.hyps(1) [OF k])
    show "\<And>j. Suc i \<le> j \<Longrightarrow> j < nat sz \<Longrightarrow> rd (st j) = Some (Some (px j), st (Suc j))"
      using Suc.prems(1) by simp
    show "Suc i \<le> nat sz" using lt by simp
    show "nat sz \<le> length (pix[i := Some (px i)])" using Suc.prems(3) by simp
  qed
  then obtain pix' where
    r': "pixel_loop rd sz (int (Suc i)) (pix[i := Some (px i)]) (st (Suc i)) =
             Some (True, pix', st (nat sz))"
    and len: "length pix' = length (pix[i := Some (px i)])"
    and new: "\<forall>j. Suc i \<le> j \<and> j < nat sz \<longrightarrow> pix' ! j = Some (px j)"
    and old: "\<forall>j < Suc i. pix' ! j = (pix[i := Some (px i)]) ! j"
    by blast
  have il: "i < length pix" using lt Suc.prems(3) by simp
  have at_i: "pix' ! i = Some (px i)" using old il by simp
  show ?case
  proof (intro exI conjI allI impI)
    show "pixel_loop rd sz (int i) pix (st i) = Some (True, pix', st (nat sz))"
      using e r' by simp
    show "length pix' = length pix" using len by simp
    fix j assume j: "i \<le> j \<and> j < nat sz"
    show "pix' ! j = Some (px j)"
    proof (cases "j = i")
      case True
      with at_i show ?thesis by simp
    next
      case False
      with j new show ?thesis by simp
    qed
  next
    fix j assume "j < i"
    with old show "pix' ! j = pix ! j" by simp
  qed
qed

text \<open>Any run of the loop that returns \<open>true\<close> has written the pixels \<open>i\<close> to \<open>sz - 1\<close> and
  no other.\<close>

lemma pixel_loop_written:
  assumes "pixel_loop rd sz i pix s = Some (True, pix', s')" and "0 \<le> i"
    and "nat sz \<le> length pix"
  shows "length pix' = length pix \<and>
         (\<forall>j. nat i \<le> j \<and> j < nat sz \<longrightarrow> pix' ! j \<noteq> None) \<and>
         (\<forall>j < nat i. pix' ! j = pix ! j)"
  using assms
proof (induction rd sz i pix s rule: pixel_loop.induct)
  case (1 rd sz i pix s)
  show ?case
  proof (cases "i < sz")
    case False
    with "1.prems" show ?thesis by (subst (asm) pixel_loop.simps) auto
  next
    case True
    with "1.prems"(1) obtain v s1 where r: "rd s = Some (Some v, s1)"
      and l: "pixel_loop rd sz (i + 1) (pix[nat i := Some v]) s1 = Some (True, pix', s')"
      by (subst (asm) pixel_loop.simps) (auto split: option.splits prod.splits)
    have ni: "nat (i + 1) = Suc (nat i)" using "1.prems"(2) by linarith
    have il: "nat i < length pix" using True "1.prems"(2,3) by linarith
    have IH: "length pix' = length (pix[nat i := Some v]) \<and>
         (\<forall>j. nat (i + 1) \<le> j \<and> j < nat sz \<longrightarrow> pix' ! j \<noteq> None) \<and>
         (\<forall>j < nat (i + 1). pix' ! j = (pix[nat i := Some v]) ! j)"
      by (rule "1.IH" [OF True r refl refl l]) (use "1.prems" in simp_all)
    then have len: "length pix' = length pix"
      and new: "\<forall>j. Suc (nat i) \<le> j \<and> j < nat sz \<longrightarrow> pix' ! j \<noteq> None"
      and old: "\<forall>j < Suc (nat i). pix' ! j = (pix[nat i := Some v]) ! j"
      by (simp_all add: ni)
    have at_i: "pix' ! nat i = Some v" using old il by simp
    show ?thesis
    proof (intro conjI allI impI)
      show "length pix' = length pix" by (rule len)
      fix j assume j: "nat i \<le> j \<and> j < nat sz"
      show "pix' ! j \<noteq> None"
      proof (cases "j = nat i")
        case True
        with at_i show ?thesis by simp
      next
        case False
        with j new show ?thesis by simp
      qed
    next
      fix j assume "j < nat i"
      with old show "pix' ! j = pix ! j" by simp
    qed
  qed
qed

text \<open>The sample number \<open>k\<close> of raw pixel data that starts at the position of \<open>s\<close>.\<close>

definition sample_at :: "int \<Rightarrow> state \<Rightarrow> nat \<Rightarrow> int" where
  "sample_at m s k = raw_sample m (bytes s) (pos s + k * bps m)"

lemma GrabBinValue_at:
  assumes "\<not> eof s" and "pos s + Suc k * bps m \<le> length (bytes s)" and "1 \<le> m" and "m \<le> 65535"
    and "sample_at m s k \<le> m"
  shows "GrabBinValue m (s\<lparr>pos := pos s + k * bps m\<rparr>) =
           (Some (scale m (sample_at m s k)), s\<lparr>pos := pos s + Suc k * bps m\<rparr>)"
proof -
  define t where "t = s\<lparr>pos := pos s + k * bps m\<rparr>"
  have 1: "\<not> eof t" using assms(1) by (simp add: t_def)
  have 2: "pos t + bps m \<le> length (bytes t)" using assms(2) by (simp add: t_def)
  have 3: "raw_sample m (bytes t) (pos t) \<le> m" using assms(5) by (simp add: t_def sample_at_def)
  have "t\<lparr>pos := pos t + bps m\<rparr> = s\<lparr>pos := pos s + Suc k * bps m\<rparr>"
    by (simp add: t_def)
  with GrabBinValue_sample [OF 1 2 assms(3,4) 3] show ?thesis
    by (simp add: t_def sample_at_def)
qed

text \<open>The four loop bodies of \<open>GrayscaleLoad\<close> and \<open>ColorLoad\<close>, selected by the number of
  channels, on pixel \<open>j\<close> of raw data that is all there.\<close>

lemma raw_pixel_at:
  assumes "\<not> eof s" and "pos s + Suc j * nat depth * bps m \<le> length (bytes s)"
    and "1 \<le> m" and "m \<le> 65535" and "1 \<le> depth" and "depth \<le> 4"
    and "\<forall>k < Suc j * nat depth. sample_at m s k \<le> m"
  shows "(if depth = 1 then gray_pixel m else if depth = 2 then gray_alpha_pixel m
          else if depth = 3 then rgb_pixel m else rgba_pixel m)
           (s\<lparr>pos := pos s + j * nat depth * bps m\<rparr>) =
         (Some (pack depth (\<lambda>c. scale m (sample_at m s (j * nat depth + c)))),
          s\<lparr>pos := pos s + Suc j * nat depth * bps m\<rparr>)"
proof -
  define d where "d = nat depth"
  define t where "t c = s\<lparr>pos := pos s + (j * d + c) * bps m\<rparr>" for c
  define x where "x c = scale m (sample_at m s (j * d + c))" for c
  have d: "depth = int d" "1 \<le> d" "d \<le> 4" using assms(5,6) by (simp_all add: d_def)
  have G: "GrabBinValue m (t c) = (Some (x c), t (c + 1))" if "c < d" for c
  proof -
    have le: "Suc (j * d + c) \<le> Suc j * d" using that by simp
    have "Suc (j * d + c) * bps m \<le> Suc j * d * bps m"
      by (rule mult_le_mono1) (rule le)
    with assms(2) have 1: "pos s + Suc (j * d + c) * bps m \<le> length (bytes s)"
      by (simp add: d_def)
    from that have "j * d + c < Suc j * d" by simp
    with assms(7) have 2: "sample_at m s (j * d + c) \<le> m" by (simp add: d_def)
    from GrabBinValue_at [OF assms(1) 1 assms(3,4) 2] show ?thesis
      by (simp add: t_def x_def)
  qed
  have first: "s\<lparr>pos := pos s + j * nat depth * bps m\<rparr> = t 0"
    by (simp add: t_def d_def)
  have last: "s\<lparr>pos := pos s + Suc j * nat depth * bps m\<rparr> = t d"
    by (simp add: t_def d_def add_mult_distrib add.commute)
  have "(\<lambda>c. scale m (sample_at m s (j * nat depth + c))) = x"
    by (rule ext) (simp add: x_def d_def)
  then have px: "pack depth (\<lambda>c. scale m (sample_at m s (j * nat depth + c))) = pack depth x"
    by simp
  have n: "Suc (Suc 0) = 2" "Suc 2 = 3" "Suc 3 = 4" by simp_all
  consider "d = 1" | "d = 2" | "d = 3" | "d = 4" using d(2,3) by linarith
  then show ?thesis
    unfolding first last px
  proof cases
    case 1
    with G [of 0] show "(if depth = 1 then gray_pixel m else if depth = 2 then gray_alpha_pixel m
          else if depth = 3 then rgb_pixel m else rgba_pixel m) (t 0) = (Some (pack depth x), t d)"
      by (simp add: d(1) gray_pixel_def pack_def)
  next
    case 2
    with G [of 0] G [of 1]
    show "(if depth = 1 then gray_pixel m else if depth = 2 then gray_alpha_pixel m
          else if depth = 3 then rgb_pixel m else rgba_pixel m) (t 0) = (Some (pack depth x), t d)"
      by (simp add: d(1) gray_alpha_pixel_def pack_def n)
  next
    case 3
    with G [of 0] G [of 1] G [of 2]
    show "(if depth = 1 then gray_pixel m else if depth = 2 then gray_alpha_pixel m
          else if depth = 3 then rgb_pixel m else rgba_pixel m) (t 0) = (Some (pack depth x), t d)"
      by (simp add: d(1) rgb_pixel_def pack_def n)
  next
    case 4
    with G [of 0] G [of 1] G [of 2] G [of 3]
    show "(if depth = 1 then gray_pixel m else if depth = 2 then gray_alpha_pixel m
          else if depth = 3 then rgb_pixel m else rgba_pixel m) (t 0) = (Some (pack depth x), t d)"
      by (simp add: d(1) rgba_pixel_def pack_def n)
  qed
qed

section \<open>PBM pixel data\<close>

text \<open>The loop \<open>while (fgetc(f) != '\n');\<close> on a line that ends.\<close>

lemma skip_line_terminated:
  assumes "unread s = cs @ CHR 0x0A # r" and "CHR 0x0A \<notin> set cs"
  shows "skip_line s = Some (s\<lparr>pos := pos s + length cs + 1\<rparr>)"
  using assms
proof (induction cs arbitrary: s)
  case Nil
  then have u: "unread s = CHR 0x0A # r" by simp
  from fgetc_Cons(1) [OF u] show ?case
    by (subst skip_line.simps) simp
next
  case (Cons c cs)
  then have u: "unread s = c # (cs @ CHR 0x0A # r)" by simp
  note g = fgetc_Cons [OF u]
  define s1 where "s1 = s\<lparr>pos := pos s + 1\<rparr>"
  have u1: "unread s1 = cs @ CHR 0x0A # r" using g(2) by (simp add: s1_def)
  have c: "c \<noteq> CHR 0x0A" and nl: "CHR 0x0A \<notin> set cs" using Cons.prems(2) by auto
  have "skip_line s = skip_line s1"
    using g(1) c by (subst skip_line.simps) (simp add: s1_def of_char_eq_10)
  also have "\<dots> = Some (s1\<lparr>pos := pos s1 + length cs + 1\<rparr>)"
    by (rule Cons.IH [OF u1 nl])
  finally show ?case by (simp add: s1_def)
qed

text \<open>The colour that PBM gives to a sample: 1 is black, 0 is white.\<close>

definition pbm_colour :: "bool \<Rightarrow> pixel" where
  "pbm_colour b = (if b then 0x000000ff else 0xffffffff)"

abbreviation pbm_pixel :: "char \<Rightarrow> pixel" where
  "pbm_pixel c \<equiv> pbm_colour (c = CHR ''1'')"

abbreviation pbm_bits :: "char list \<Rightarrow> char list" where
  "pbm_bits ds \<equiv> filter (\<lambda>c. c = CHR ''0'' \<or> c = CHR ''1'') ds"

text \<open>The pixel data of a PBM-ASCII file, seen as a sequence of items: a sample
  character, a comment that runs from \<open>'#'\<close> to the end of its line, or one byte that is
  neither.\<close>

datatype pbm_item = Sample bool | Comment "char list" | Other char

fun pbm_chars :: "pbm_item \<Rightarrow> char list" where
  "pbm_chars (Sample b) = [if b then CHR ''1'' else CHR ''0'']"
| "pbm_chars (Comment cs) = CHR ''#'' # cs @ [CHR 0x0A]"
| "pbm_chars (Other c) = [c]"

fun pbm_item_ok :: "pbm_item \<Rightarrow> bool" where
  "pbm_item_ok (Sample b) = True"
| "pbm_item_ok (Comment cs) = (CHR 0x0A \<notin> set cs)"
| "pbm_item_ok (Other c) = (c \<noteq> CHR ''0'' \<and> c \<noteq> CHR ''1'' \<and> c \<noteq> CHR ''#'')"

fun pbm_sample :: "pbm_item \<Rightarrow> bool list" where
  "pbm_sample (Sample b) = [b]"
| "pbm_sample (Comment cs) = []"
| "pbm_sample (Other c) = []"

definition pbm_text :: "pbm_item list \<Rightarrow> char list" where
  "pbm_text its = concat (map pbm_chars its)"

definition pbm_samples :: "pbm_item list \<Rightarrow> bool list" where
  "pbm_samples its = concat (map pbm_sample its)"

lemma pbm_text_simps [simp]:
  "pbm_text [] = []"
  "pbm_text (it # its) = pbm_chars it @ pbm_text its"
  "pbm_text (its @ its') = pbm_text its @ pbm_text its'"
  by (simp_all add: pbm_text_def)

lemma pbm_samples_simps [simp]:
  "pbm_samples [] = []"
  "pbm_samples (it # its) = pbm_sample it @ pbm_samples its"
  "pbm_samples (its @ its') = pbm_samples its @ pbm_samples its'"
  by (simp_all add: pbm_samples_def)

text \<open>One turn of the loop of \<open>PbmAsciiLoad\<close> on each kind of byte.\<close>

lemma PbmAsciiLoad_loop_sample:
  assumes "unread s = (if b then CHR ''1'' else CHR ''0'') # r" and "i < sz"
  shows "PbmAsciiLoad_loop sz i pix s =
         PbmAsciiLoad_loop sz (i + 1) (pix[nat i := Some (pbm_colour b)]) (s\<lparr>pos := pos s + 1\<rparr>)"
  using fgetc_Cons(1) [OF assms(1)] assms(2)
  by (subst PbmAsciiLoad_loop.simps) (simp add: pbm_colour_def)

lemma PbmAsciiLoad_loop_other:
  assumes "unread s = c # r" and "i < sz"
    and "c \<noteq> CHR ''0''" and "c \<noteq> CHR ''1''" and "c \<noteq> CHR ''#''"
  shows "PbmAsciiLoad_loop sz i pix s = PbmAsciiLoad_loop sz i pix (s\<lparr>pos := pos s + 1\<rparr>)"
  using fgetc_Cons(1) [OF assms(1)] assms(2-)
  by (subst PbmAsciiLoad_loop.simps) (simp add: char_eq)

lemma PbmAsciiLoad_loop_comment:
  assumes "unread s = CHR ''#'' # cs @ CHR 0x0A # r" and "i < sz" and "CHR 0x0A \<notin> set cs"
  shows "PbmAsciiLoad_loop sz i pix s =
         PbmAsciiLoad_loop sz i pix (s\<lparr>pos := pos s + length cs + 2\<rparr>)"
proof -
  note g = fgetc_Cons [OF assms(1)]
  define s1 where "s1 = s\<lparr>pos := pos s + 1\<rparr>"
  have u1: "unread s1 = cs @ CHR 0x0A # r" using g(2) by (simp add: s1_def)
  have sk: "skip_line s1 = Some (s\<lparr>pos := pos s + length cs + 2\<rparr>)"
    using skip_line_terminated [OF u1 assms(3)] by (simp add: s1_def)
  have f: "fgetc s = (35, s1)" using g(1) by (simp add: s1_def)
  show ?thesis
    using assms(2) by (subst PbmAsciiLoad_loop.simps) (simp add: f sk)
qed

text \<open>The loop on a run of items, while pixels are still missing after them.\<close>

lemma PbmAsciiLoad_loop_items:
  assumes "unread s = pbm_text its @ r" and "list_all pbm_item_ok its" and "0 \<le> i"
    and "i + int (length (pbm_samples its)) < sz" and "nat sz \<le> length pix"
  shows "PbmAsciiLoad_loop sz i pix s =
         PbmAsciiLoad_loop sz (i + int (length (pbm_samples its)))
           (take (nat i) pix @ map (\<lambda>b. Some (pbm_colour b)) (pbm_samples its) @
            drop (nat i + length (pbm_samples its)) pix)
           (s\<lparr>pos := pos s + length (pbm_text its)\<rparr>)"
  using assms
proof (induction its arbitrary: s i pix)
  case Nil
  then show ?case by simp
next
  case (Cons it its)
  have lt: "i < sz" using Cons.prems(4) by simp
  have ok: "list_all pbm_item_ok its" using Cons.prems(2) by simp
  show ?case
  proof (cases it)
    case (Sample b)
    define s1 where "s1 = s\<lparr>pos := pos s + 1\<rparr>"
    define pix1 where "pix1 = pix[nat i := Some (pbm_colour b)]"
    have u: "unread s = (if b then CHR ''1'' else CHR ''0'') # (pbm_text its @ r)"
      using Cons.prems(1) Sample by simp
    have u1: "unread s1 = pbm_text its @ r" using fgetc_Cons(2) [OF u] by (simp add: s1_def)
    have il: "nat i < length pix" using Cons.prems(3,5) lt by linarith
    have i1: "nat (i + 1) = Suc (nat i)" using Cons.prems(3) by linarith
    have e: "PbmAsciiLoad_loop sz i pix s = PbmAsciiLoad_loop sz (i + 1) pix1 s1"
      unfolding s1_def pix1_def by (rule PbmAsciiLoad_loop_sample [OF u lt])
    have IH: "PbmAsciiLoad_loop sz (i + 1) pix1 s1 =
         PbmAsciiLoad_loop sz (i + 1 + int (length (pbm_samples its)))
           (take (nat (i + 1)) pix1 @ map (\<lambda>b. Some (pbm_colour b)) (pbm_samples its) @
            drop (nat (i + 1) + length (pbm_samples its)) pix1)
           (s1\<lparr>pos := pos s1 + length (pbm_text its)\<rparr>)"
    proof (rule Cons.IH [OF u1 ok])
      show "0 \<le> i + 1" using Cons.prems(3) by simp
      show "i + 1 + int (length (pbm_samples its)) < sz" using Cons.prems(4) Sample by simp
      show "nat sz \<le> length pix1" using Cons.prems(5) by (simp add: pix1_def)
    qed
    have t: "take (nat (i + 1)) pix1 = take (nat i) pix @ [Some (pbm_colour b)]"
      using il by (simp add: i1 pix1_def take_Suc_conv_app_nth)
    have d: "drop (nat (i + 1) + length (pbm_samples its)) pix1 =
             drop (nat i + length (pbm_samples (it # its))) pix"
      using Sample by (simp add: i1 pix1_def drop_update_cancel)
    show ?thesis
      unfolding e IH t d using Sample by (simp add: s1_def ac_simps)
  next
    case (Comment cs)
    define s1 where "s1 = s\<lparr>pos := pos s + length cs + 2\<rparr>"
    have u: "unread s = CHR ''#'' # cs @ CHR 0x0A # (pbm_text its @ r)"
      using Cons.prems(1) Comment by simp
    have nl: "CHR 0x0A \<notin> set cs" using Cons.prems(2) Comment by simp
    have "drop (length (CHR ''#'' # cs @ [CHR 0x0A])) (unread s) = pbm_text its @ r"
      unfolding u by simp
    then have u1: "unread s1 = pbm_text its @ r" by (simp add: s1_def add.commute)
    have e: "PbmAsciiLoad_loop sz i pix s = PbmAsciiLoad_loop sz i pix s1"
      unfolding s1_def by (rule PbmAsciiLoad_loop_comment [OF u lt nl])
    have k: "i + int (length (pbm_samples its)) < sz" using Cons.prems(4) Comment by simp
    show ?thesis
      unfolding e Cons.IH [OF u1 ok Cons.prems(3) k Cons.prems(5)]
      using Comment by (simp add: s1_def ac_simps)
  next
    case (Other c)
    define s1 where "s1 = s\<lparr>pos := pos s + 1\<rparr>"
    have u: "unread s = c # (pbm_text its @ r)" using Cons.prems(1) Other by simp
    have u1: "unread s1 = pbm_text its @ r" using fgetc_Cons(2) [OF u] by (simp add: s1_def)
    have c: "c \<noteq> CHR ''0''" "c \<noteq> CHR ''1''" "c \<noteq> CHR ''#''"
      using Cons.prems(2) Other by simp_all
    have e: "PbmAsciiLoad_loop sz i pix s = PbmAsciiLoad_loop sz i pix s1"
      unfolding s1_def by (rule PbmAsciiLoad_loop_other [OF u lt c])
    have k: "i + int (length (pbm_samples its)) < sz" using Cons.prems(4) Other by simp
    show ?thesis
      unfolding e Cons.IH [OF u1 ok Cons.prems(3) k Cons.prems(5)]
      using Other by (simp add: s1_def ac_simps)
  qed
qed

text \<open>The whole loop on pixel data whose last item is its last sample.\<close>

lemma PbmAsciiLoad_loop_all:
  assumes "unread s = pbm_text (its @ [Sample b]) @ r" and "list_all pbm_item_ok its"
    and "int (length (pbm_samples (its @ [Sample b]))) = sz" and "length pix = nat sz"
  shows "PbmAsciiLoad_loop sz 0 pix s =
         Some (True, map (\<lambda>b. Some (pbm_colour b)) (pbm_samples (its @ [Sample b])),
               s\<lparr>pos := pos s + length (pbm_text (its @ [Sample b]))\<rparr>)"
proof -
  define k where "k = length (pbm_samples its)"
  define s1 where "s1 = s\<lparr>pos := pos s + length (pbm_text its)\<rparr>"
  define pix1 where "pix1 = map (\<lambda>b. Some (pbm_colour b)) (pbm_samples its) @ drop k pix"
  have sz: "sz = int k + 1" using assms(3) by (simp add: k_def)
  have len: "length pix = Suc k" using assms(4) sz by simp
  have u: "unread s = pbm_text its @ ((if b then CHR ''1'' else CHR ''0'') # r)"
    using assms(1) by (cases b) simp_all
  have a: "PbmAsciiLoad_loop sz 0 pix s = PbmAsciiLoad_loop sz (int k) pix1 s1"
    using PbmAsciiLoad_loop_items [OF u assms(2), of 0 sz pix] sz len
    by (simp add: k_def s1_def pix1_def)
  have "drop (length (pbm_text its)) (unread s) = (if b then CHR ''1'' else CHR ''0'') # r"
    unfolding u by (cases b) simp_all
  then have u1: "unread s1 = (if b then CHR ''1'' else CHR ''0'') # r"
    by (simp add: s1_def add.commute)
  have b: "PbmAsciiLoad_loop sz (int k) pix1 s1 =
           PbmAsciiLoad_loop sz (int k + 1) (pix1[nat (int k) := Some (pbm_colour b)])
             (s1\<lparr>pos := pos s1 + 1\<rparr>)"
    by (rule PbmAsciiLoad_loop_sample [OF u1]) (simp add: sz)
  have l1: "length pix1 = Suc k" using len by (simp add: pix1_def k_def)
  have p: "pix1[nat (int k) := Some (pbm_colour b)] =
           map (\<lambda>b. Some (pbm_colour b)) (pbm_samples (its @ [Sample b]))"
  proof -
    have "pix ! k # drop (Suc k) pix = drop k pix" using len by (intro Cons_nth_drop_Suc) simp
    then have "drop k pix = [pix ! k]" using len by simp
    then show ?thesis by (simp add: pix1_def list_update_append k_def)
  qed
  show ?thesis
    unfolding a b p
    by (subst PbmAsciiLoad_loop.simps) (simp add: sz s1_def ac_simps)
qed

text \<open>Pixel data without \<open>'#'\<close> is a run of samples and other bytes.\<close>

definition pbm_classify :: "char \<Rightarrow> pbm_item" where
  "pbm_classify c =
     (if c = CHR ''0'' then Sample False else if c = CHR ''1'' then Sample True else Other c)"

lemma pbm_classify_text: "pbm_text (map pbm_classify ds) = ds"
  by (induction ds) (simp_all add: pbm_classify_def)

lemma pbm_classify_ok: "CHR ''#'' \<notin> set ds \<Longrightarrow> list_all pbm_item_ok (map pbm_classify ds)"
  by (induction ds) (auto simp: pbm_classify_def)

lemma pbm_classify_samples:
  "pbm_samples (map pbm_classify ds) = map (\<lambda>c. c = CHR ''1'') (pbm_bits ds)"
  by (induction ds) (simp_all add: pbm_classify_def)

text \<open>The loop on pixel data without \<open>'#'\<close> that holds too few samples.\<close>

lemma PbmAsciiLoad_loop_short:
  assumes "unread s = ds" and "CHR ''#'' \<notin> set ds" and "int (length (pbm_bits ds)) < sz - i"
  shows "\<exists>pix'. PbmAsciiLoad_loop sz i pix s =
           Some (False, pix', s\<lparr>pos := pos s + length ds, eof := True,
                                 stderr := stderr s @ [UnexpectedEof]\<rparr>)"
  using assms
proof (induction ds arbitrary: s i pix)
  case Nil
  then have "i < sz" by simp
  with Nil show ?case
    by (subst PbmAsciiLoad_loop.simps) (simp add: fgetc_Nil report_def)
next
  case (Cons c r)
  note g = fgetc_Cons [OF Cons.prems(1)]
  define s1 where "s1 = s\<lparr>pos := pos s + 1\<rparr>"
  have u1: "unread s1 = r" using g(2) by (simp add: s1_def)
  have nh: "CHR ''#'' \<notin> set r" and c35: "c \<noteq> CHR ''#''" using Cons.prems(2) by auto
  have lt: "i < sz" using Cons.prems(3) by linarith
  have fin: "s1\<lparr>pos := pos s1 + length r, eof := True, stderr := stderr s1 @ [UnexpectedEof]\<rparr> =
             s\<lparr>pos := pos s + length (c # r), eof := True, stderr := stderr s @ [UnexpectedEof]\<rparr>"
    by (simp add: s1_def)
  show ?case
  proof (cases "c = CHR ''0'' \<or> c = CHR ''1''")
    case True
    then have cb: "c = (if c = CHR ''1'' then CHR ''1'' else CHR ''0'')" by auto
    have u: "unread s = (if c = CHR ''1'' then CHR ''1'' else CHR ''0'') # r"
      using Cons.prems(1) cb by simp
    have k: "int (length (pbm_bits r)) < sz - (i + 1)" using Cons.prems(3) True by auto
    from Cons.IH [OF u1 nh k] show ?thesis
      unfolding PbmAsciiLoad_loop_sample [OF u lt] s1_def [symmetric] fin .
  next
    case False
    then have c: "c \<noteq> CHR ''0''" "c \<noteq> CHR ''1''" by simp_all
    have k: "int (length (pbm_bits r)) < sz - i" using Cons.prems(3) False by auto
    from Cons.IH [OF u1 nh k] show ?thesis
      unfolding PbmAsciiLoad_loop_other [OF Cons.prems(1) lt c c35] s1_def [symmetric] fin .
  qed
qed

lemma bit_test: "(w AND push_bit k 1 \<noteq> 0) = bit w k" for w :: "8 word"
  by (simp add: bit_iff_and_push_bit_not_eq_0)

lemma nat_div8: "0 \<le> i \<Longrightarrow> nat i div 8 = nat (i div 8)"
  by (simp add: nat_div_distrib)

lemma nat_mod8: "0 \<le> i \<Longrightarrow> nat i mod 8 = nat (i mod 8)"
  by (simp add: nat_mod_distrib)

lemma nat_bitpos: "0 \<le> i \<Longrightarrow> nat (7 - i mod 8) = 7 - nat i mod 8"
proof -
  assume i: "0 \<le> i"
  have "0 \<le> i mod 8" and "i mod 8 < 8" by simp_all
  then have "nat (7 - i mod 8) = 7 - nat (i mod 8)" by linarith
  with i show ?thesis by (simp add: nat_mod8)
qed

text \<open>The invariant of the loop of \<open>PbmRawLoad\<close>: before pixel \<open>i\<close>, the stream stands
  \<open>(i + 7) div 8\<close> bytes after the start \<open>p0\<close> of the pixel data, and inside a group of
  eight pixels \<open>byte\<close> holds the data byte of the group.\<close>

lemma PbmRawLoad_loop_bits:
  assumes "0 \<le> i" and "i \<le> sz" and "nat sz \<le> length pix" and "\<not> eof s"
    and "pos s = p0 + nat ((i + 7) div 8)"
    and "p0 + nat ((sz + 7) div 8) \<le> length (bytes s)"
    and "i mod 8 \<noteq> 0 \<longrightarrow> byte = of_char (bytes s ! (p0 + nat (i div 8)))"
  shows "\<exists>pix'. PbmRawLoad_loop sz i byte pix s =
            (True, pix', s\<lparr>pos := p0 + nat ((sz + 7) div 8)\<rparr>) \<and>
          length pix' = length pix \<and>
          (\<forall>j. nat i \<le> j \<and> j < nat sz \<longrightarrow>
               pix' ! j = Some (if bit (of_char (bytes s ! (p0 + j div 8)) :: 8 word) (7 - j mod 8)
                                then 0x000000ff else 0xffffffff)) \<and>
          (\<forall>j < nat i. pix' ! j = pix ! j)"
  using assms
proof (induction sz i byte pix s rule: PbmRawLoad_loop.induct)
  case (1 sz i byte pix s)
  show ?case
  proof (cases "i < sz")
    case False
    with "1.prems" have "i = sz" by simp
    with "1.prems"(5) show ?thesis
      by (subst PbmRawLoad_loop.simps) auto
  next
    case True
    note lt = this
    have ni: "nat (i + 1) = Suc (nat i)" using "1.prems"(1) by linarith
    have il: "nat i < length pix" using "1.prems"(1,3) lt by linarith
    show ?thesis
    proof (cases "i mod 8 = 0")
      case True
      have d1: "(i + 7) div 8 = i div 8" using True by presburger
      have d2: "(i + 1 + 7) div 8 = i div 8 + 1" using True by presburger
      have d3: "i div 8 < (sz + 7) div 8" using lt by presburger
      have d0: "0 \<le> i div 8" using "1.prems"(1) by presburger
      have p: "pos s = p0 + nat (i div 8)" using "1.prems"(5) d1 by simp
      have pl: "pos s < length (bytes s)" using p d3 d0 "1.prems"(6) by linarith
      define s1 where "s1 = s\<lparr>pos := pos s + 1\<rparr>"
      define b :: "8 word" where "b = of_char (bytes s ! pos s)"
      have g: "fgetc s = (of_char (bytes s ! pos s), s1)" using pl by (simp add: fgetc_def s1_def)
      have wb: "(word_of_int (of_char (bytes s ! pos s)) :: 8 word) = b"
        by (simp add: b_def of_int_of_char)
      define v :: pixel where
        "v = (if b AND push_bit (nat (7 - i mod 8)) 1 \<noteq> 0 then 0x000000ff else 0xffffffff)"
      have vb: "v = (if bit b (7 - nat i mod 8) then 0x000000ff else 0xffffffff)"
        unfolding v_def bit_test using "1.prems"(1) by (simp only: nat_bitpos)
      have e: "PbmRawLoad_loop sz i byte pix s = PbmRawLoad_loop sz (i + 1) b (pix[nat i := Some v]) s1"
        using lt True g "1.prems"(4) wb
        by (subst PbmRawLoad_loop.simps) (simp add: feof_def v_def)
      have IH: "\<exists>pix'. PbmRawLoad_loop sz (i + 1) b (pix[nat i := Some v]) s1 =
            (True, pix', s1\<lparr>pos := p0 + nat ((sz + 7) div 8)\<rparr>) \<and>
          length pix' = length (pix[nat i := Some v]) \<and>
          (\<forall>j. nat (i + 1) \<le> j \<and> j < nat sz \<longrightarrow>
               pix' ! j = Some (if bit (of_char (bytes s1 ! (p0 + j div 8)) :: 8 word) (7 - j mod 8)
                                then 0x000000ff else 0xffffffff)) \<and>
          (\<forall>j < nat (i + 1). pix' ! j = (pix[nat i := Some v]) ! j)"
      proof -
        have h: "(if i mod 8 = 0 then if feof s then None
               else case fgetc s of (c, s1) \<Rightarrow> Some (word_of_int c, s1)
              else Some (byte, s)) = Some (b, s1)"
          using True g "1.prems"(4) wb by (simp add: feof_def)
        show ?thesis unfolding v_def
      proof (rule "1.IH" [OF lt h refl])
        show "0 \<le> i + 1" using "1.prems"(1) by simp
        show "i + 1 \<le> sz" using lt by simp
        show "nat sz \<le> length (pix[nat i := Some (if b AND push_bit (nat (7 - i mod 8)) 1 \<noteq> 0
                                   then 0x000000ff else 0xffffffff)])" using "1.prems"(3) by simp
        show "\<not> eof s1" using "1.prems"(4) by (simp add: s1_def)
        show "pos s1 = p0 + nat ((i + 1 + 7) div 8)" using p d2 d0 by (simp add: s1_def nat_add_distrib)
        show "p0 + nat ((sz + 7) div 8) \<le> length (bytes s1)" using "1.prems"(6) by (simp add: s1_def)
        show "(i + 1) mod 8 \<noteq> 0 \<longrightarrow> b = of_char (bytes s1 ! (p0 + nat ((i + 1) div 8)))"
        proof
          assume "(i + 1) mod 8 \<noteq> 0"
          then have "(i + 1) div 8 = i div 8" by presburger
          then show "b = of_char (bytes s1 ! (p0 + nat ((i + 1) div 8)))"
            using p by (simp add: b_def s1_def)
        qed
      qed
      qed
      then obtain pix' where
        r: "PbmRawLoad_loop sz (i + 1) b (pix[nat i := Some v]) s1 =
            (True, pix', s1\<lparr>pos := p0 + nat ((sz + 7) div 8)\<rparr>)"
        and len: "length pix' = length (pix[nat i := Some v])"
        and new: "\<forall>j. nat (i + 1) \<le> j \<and> j < nat sz \<longrightarrow>
               pix' ! j = Some (if bit (of_char (bytes s1 ! (p0 + j div 8)) :: 8 word) (7 - j mod 8)
                                then 0x000000ff else 0xffffffff)"
        and old: "\<forall>j < nat (i + 1). pix' ! j = (pix[nat i := Some v]) ! j"
        by blast
      have at_i: "pix' ! nat i = Some v" using old il ni by simp
      have idx: "p0 + nat i div 8 = pos s"
        using p "1.prems"(1) by (simp add: nat_div8)
      show ?thesis
      proof (intro exI conjI allI impI)
        show "PbmRawLoad_loop sz i byte pix s = (True, pix', s\<lparr>pos := p0 + nat ((sz + 7) div 8)\<rparr>)"
          using e r by (simp add: s1_def)
        show "length pix' = length pix" using len by simp
        fix j assume j: "nat i \<le> j \<and> j < nat sz"
        show "pix' ! j = Some (if bit (of_char (bytes s ! (p0 + j div 8)) :: 8 word) (7 - j mod 8)
                                then 0x000000ff else 0xffffffff)"
        proof (cases "j = nat i")
          case True
          with at_i idx show ?thesis by (simp add: vb b_def)
        next
          case False
          with j ni have "nat (i + 1) \<le> j \<and> j < nat sz" by linarith
          with new show ?thesis by (simp add: s1_def)
        qed
      next
        fix j assume "j < nat i"
        with old ni show "pix' ! j = pix ! j" by simp
      qed
    next
      case False
      have d1: "(i + 7) div 8 = i div 8 + 1" using False by presburger
      have d2: "(i + 1 + 7) div 8 = i div 8 + 1" using False by presburger
      have d0: "0 \<le> i div 8" using "1.prems"(1) by presburger
      define b :: "8 word" where "b = of_char (bytes s ! (p0 + nat (i div 8)))"
      have bb: "byte = b" using "1.prems"(7) False by (simp add: b_def)
      define v :: pixel where
        "v = (if b AND push_bit (nat (7 - i mod 8)) 1 \<noteq> 0 then 0x000000ff else 0xffffffff)"
      have vb: "v = (if bit b (7 - nat i mod 8) then 0x000000ff else 0xffffffff)"
        unfolding v_def bit_test using "1.prems"(1) by (simp only: nat_bitpos)
      have e: "PbmRawLoad_loop sz i byte pix s = PbmRawLoad_loop sz (i + 1) b (pix[nat i := Some v]) s"
        using lt False bb
        by (subst PbmRawLoad_loop.simps) (simp add: v_def)
      have IH: "\<exists>pix'. PbmRawLoad_loop sz (i + 1) b (pix[nat i := Some v]) s =
            (True, pix', s\<lparr>pos := p0 + nat ((sz + 7) div 8)\<rparr>) \<and>
          length pix' = length (pix[nat i := Some v]) \<and>
          (\<forall>j. nat (i + 1) \<le> j \<and> j < nat sz \<longrightarrow>
               pix' ! j = Some (if bit (of_char (bytes s ! (p0 + j div 8)) :: 8 word) (7 - j mod 8)
                                then 0x000000ff else 0xffffffff)) \<and>
          (\<forall>j < nat (i + 1). pix' ! j = (pix[nat i := Some v]) ! j)"
      proof -
        have h: "(if i mod 8 = 0 then if feof s then None
               else case fgetc s of (c, s1) \<Rightarrow> Some (word_of_int c, s1)
              else Some (byte, s)) = Some (b, s)"
          using False bb by simp
        show ?thesis unfolding v_def
      proof (rule "1.IH" [OF lt h refl])
        show "0 \<le> i + 1" using "1.prems"(1) by simp
        show "i + 1 \<le> sz" using lt by simp
        show "nat sz \<le> length (pix[nat i := Some (if b AND push_bit (nat (7 - i mod 8)) 1 \<noteq> 0
                                   then 0x000000ff else 0xffffffff)])" using "1.prems"(3) by simp
        show "\<not> eof s" using "1.prems"(4) .
        show "pos s = p0 + nat ((i + 1 + 7) div 8)" using "1.prems"(5) d1 d2 by simp
        show "p0 + nat ((sz + 7) div 8) \<le> length (bytes s)" using "1.prems"(6) .
        show "(i + 1) mod 8 \<noteq> 0 \<longrightarrow> b = of_char (bytes s ! (p0 + nat ((i + 1) div 8)))"
        proof
          assume "(i + 1) mod 8 \<noteq> 0"
          then have "(i + 1) div 8 = i div 8" by presburger
          then show "b = of_char (bytes s ! (p0 + nat ((i + 1) div 8)))"
            by (simp add: b_def)
        qed
      qed
      qed
      then obtain pix' where
        r: "PbmRawLoad_loop sz (i + 1) b (pix[nat i := Some v]) s =
            (True, pix', s\<lparr>pos := p0 + nat ((sz + 7) div 8)\<rparr>)"
        and len: "length pix' = length (pix[nat i := Some v])"
        and new: "\<forall>j. nat (i + 1) \<le> j \<and> j < nat sz \<longrightarrow>
               pix' ! j = Some (if bit (of_char (bytes s ! (p0 + j div 8)) :: 8 word) (7 - j mod 8)
                                then 0x000000ff else 0xffffffff)"
        and old: "\<forall>j < nat (i + 1). pix' ! j = (pix[nat i := Some v]) ! j"
        by blast
      have at_i: "pix' ! nat i = Some v" using old il ni by simp
      have idx: "nat i div 8 = nat (i div 8)"
        using "1.prems"(1) by (simp add: nat_div8)
      show ?thesis
      proof (intro exI conjI allI impI)
        show "PbmRawLoad_loop sz i byte pix s = (True, pix', s\<lparr>pos := p0 + nat ((sz + 7) div 8)\<rparr>)"
          using e r by simp
        show "length pix' = length pix" using len by simp
        fix j assume j: "nat i \<le> j \<and> j < nat sz"
        show "pix' ! j = Some (if bit (of_char (bytes s ! (p0 + j div 8)) :: 8 word) (7 - j mod 8)
                                then 0x000000ff else 0xffffffff)"
        proof (cases "j = nat i")
          case True
          with at_i idx show ?thesis by (simp add: vb b_def)
        next
          case False
          with j ni have "nat (i + 1) \<le> j \<and> j < nat sz" by linarith
          with new show ?thesis by simp
        qed
      next
        fix j assume "j < nat i"
        with old ni show "pix' ! j = pix ! j" by simp
      qed
    qed
  qed
qed

section \<open>The dispatcher\<close>

lemma PnmLoad_invalid_magic:
  assumes "length bs < 2 \<or> bs ! 0 \<noteq> CHR ''P'' \<or> bs ! 1 \<notin> set ''1234567''"
  shows "\<exists>s'. PnmLoad s0 (Some bs) w0 h0 d0 m0 = Some (None, w0, h0, s') \<and>
              stderr s' = stderr s0 @ [InvalidMagic] \<and> mallocs s' = mallocs s0"
proof (cases bs)
  case Nil
  then show ?thesis by (simp add: PnmLoad_def stream_defs)
next
  case (Cons c1 bs1)
  note c1 = this
  show ?thesis
  proof (cases bs1)
    case Nil
    with c1 show ?thesis by (simp add: PnmLoad_def stream_defs char_eq)
  next
    case (Cons c2 bs2)
    with c1 assms show ?thesis
      by (simp add: PnmLoad_def stream_defs char_eq)
  qed
qed

lemma PnmLoad_dispatch:
  "PnmLoad s0 (Some (CHR ''P'' # d # rest)) w0 h0 d0 m0 =
     (let s2 = (fopen s0 (CHR ''P'' # d # rest))\<lparr>pos := 2\<rparr> in
      if d = CHR ''1'' then PbmAsciiLoad s2
      else if d = CHR ''2'' then PgmAsciiLoad s2
      else if d = CHR ''3'' then PpmAsciiLoad s2
      else if d = CHR ''4'' then PbmRawLoad s2
      else if d = CHR ''5'' then PgmRawLoad s2
      else if d = CHR ''6'' then PpmRawLoad s2
      else if d = CHR ''7'' then PamLoad s2 w0 h0 d0 m0
      else Some (None, w0, h0, report InvalidMagic s2))"
  by (simp add: PnmLoad_def fopen_def fgetc_def char_eq Let_def numeral_2_eq_2)

text \<open>
  Claim C7.  A stream whose first byte is not \<open>'P'\<close> or whose second byte is not one of
  the digits \<open>'1'\<close> to \<open>'7'\<close> (a stream shorter than two bytes included) makes \<open>PnmLoad\<close>
  return \<open>NULL\<close> after the message of an invalid magic number; \<open>*w\<close> and \<open>*h\<close> are left as
  they were and \<open>malloc\<close> is not called.  After the magic \<open>'P'\<close> and a digit, the digit
  alone selects the loader, which continues on the stream after the second byte:
  \<open>'1'\<close> \<open>PbmAsciiLoad\<close>, \<open>'2'\<close> \<open>PgmAsciiLoad\<close>, \<open>'3'\<close> \<open>PpmAsciiLoad\<close>, \<open>'4'\<close> \<open>PbmRawLoad\<close>,
  \<open>'5'\<close> \<open>PgmRawLoad\<close>, \<open>'6'\<close> \<open>PpmRawLoad\<close>, \<open>'7'\<close> \<open>PamLoad\<close>.
\<close>

theorem PnmLoad_magic:
  "(length bs < 2 \<or> bs ! 0 \<noteq> CHR ''P'' \<or> bs ! 1 \<notin> set ''1234567'' \<longrightarrow>
      (\<exists>s'. PnmLoad s0 (Some bs) w0 h0 d0 m0 = Some (None, w0, h0, s') \<and>
            stderr s' = stderr s0 @ [InvalidMagic] \<and> mallocs s' = mallocs s0)) \<and>
   PnmLoad s0 (Some (CHR ''P'' # d # rest)) w0 h0 d0 m0 =
     (let s2 = (fopen s0 (CHR ''P'' # d # rest))\<lparr>pos := 2\<rparr> in
      if d = CHR ''1'' then PbmAsciiLoad s2
      else if d = CHR ''2'' then PgmAsciiLoad s2
      else if d = CHR ''3'' then PpmAsciiLoad s2
      else if d = CHR ''4'' then PbmRawLoad s2
      else if d = CHR ''5'' then PgmRawLoad s2
      else if d = CHR ''6'' then PpmRawLoad s2
      else if d = CHR ''7'' then PamLoad s2 w0 h0 d0 m0
      else Some (None, w0, h0, report InvalidMagic s2))"
proof (intro conjI impI)
  assume "length bs < 2 \<or> bs ! 0 \<noteq> CHR ''P'' \<or> bs ! 1 \<notin> set ''1234567''"
  then show "\<exists>s'. PnmLoad s0 (Some bs) w0 h0 d0 m0 = Some (None, w0, h0, s') \<and>
                  stderr s' = stderr s0 @ [InvalidMagic] \<and> mallocs s' = mallocs s0"
    by (rule PnmLoad_invalid_magic)
next
  show "PnmLoad s0 (Some (CHR ''P'' # d # rest)) w0 h0 d0 m0 =
     (let s2 = (fopen s0 (CHR ''P'' # d # rest))\<lparr>pos := 2\<rparr> in
      if d = CHR ''1'' then PbmAsciiLoad s2
      else if d = CHR ''2'' then PgmAsciiLoad s2
      else if d = CHR ''3'' then PpmAsciiLoad s2
      else if d = CHR ''4'' then PbmRawLoad s2
      else if d = CHR ''5'' then PgmRawLoad s2
      else if d = CHR ''6'' then PpmRawLoad s2
      else if d = CHR ''7'' then PamLoad s2 w0 h0 d0 m0
      else Some (None, w0, h0, report InvalidMagic s2))"
    by (rule PnmLoad_dispatch)
qed

text \<open>The file \<open>P9\<close>: the second byte is not a digit from 1 to 7.\<close>

theorem PnmLoad_magic_witness:
  "(length ''P9'' < 2 \<or> ''P9'' ! 0 \<noteq> CHR ''P'' \<or> ''P9'' ! 1 \<notin> set ''1234567'') \<and>
   (\<exists>s'. PnmLoad world_ok (Some ''P9'') 3 4 0 0 = Some (None, 3, 4, s') \<and>
         stderr s' = [InvalidMagic] \<and> mallocs s' = 0)"
  using PnmLoad_magic [where bs = "''P9''" and ?s0.0 = world_ok and ?w0.0 = 3 and ?h0.0 = 4
      and ?d0.0 = 0 and ?m0.0 = 0, THEN conjunct1]
  by (simp add: world_ok_def world_def)

section \<open>Validation of the PAM header\<close>

text \<open>
  Claim C5.  When the keyword loop of \<open>ReadPamHeader\<close> ends at \<open>ENDHDR\<close> with the fields
  \<open>w'\<close>, \<open>h'\<close>, \<open>depth'\<close>, \<open>maxval'\<close>: if the depth is outside 1..4 or maxval is outside
  1..65535, \<open>PamLoad\<close> returns \<open>NULL\<close> after the message of a value out of range; if the
  width or the height is below 1 it returns \<open>NULL\<close> after one message (out of range or
  dimension); in both cases \<open>malloc\<close> is not called.
\<close>

theorem ReadPamHeader_validation:
  assumes "ReadPamHeader_loop s w h depth maxval = Some (True, w', h', depth', maxval', s')"
  shows "(depth' < 1 \<or> depth' > 4 \<or> maxval' < 1 \<or> maxval' > 65535 \<longrightarrow>
            (\<exists>s''. PamLoad s w h depth maxval = Some (None, - 1, - 1, s'') \<and>
                   stderr s'' = stderr s' @ [InvalidRange] \<and> mallocs s'' = mallocs s')) \<and>
         (w' < 1 \<or> h' < 1 \<longrightarrow>
            (\<exists>wr hr s'' e. PamLoad s w h depth maxval = Some (None, wr, hr, s'') \<and>
                   stderr s'' = stderr s' @ [e] \<and> (e = InvalidRange \<or> e = InvalidDimension) \<and>
                   mallocs s'' = mallocs s'))"
  using assms
  by (simp add: PamLoad_def ReadPamHeader_def ReadPamHeader_check_def report_def)

text \<open>Four headers: \<open>MAXVAL 0\<close>, \<open>MAXVAL 70000\<close>, \<open>DEPTH 0\<close>, \<open>DEPTH 5\<close>, and one with
  \<open>WIDTH 0\<close>.\<close>

definition pam_maxval_0 :: "char list" where
  "pam_maxval_0 = ''P7\<newline>WIDTH 1\<newline>HEIGHT 1\<newline>DEPTH 1\<newline>MAXVAL 0\<newline>ENDHDR\<newline>''"

definition pam_maxval_70000 :: "char list" where
  "pam_maxval_70000 = ''P7\<newline>WIDTH 1\<newline>HEIGHT 1\<newline>DEPTH 1\<newline>MAXVAL 70000\<newline>ENDHDR\<newline>''"

definition pam_depth_0 :: "char list" where
  "pam_depth_0 = ''P7\<newline>WIDTH 1\<newline>HEIGHT 1\<newline>DEPTH 0\<newline>MAXVAL 255\<newline>ENDHDR\<newline>''"

definition pam_depth_5 :: "char list" where
  "pam_depth_5 = ''P7\<newline>WIDTH 1\<newline>HEIGHT 1\<newline>DEPTH 5\<newline>MAXVAL 255\<newline>ENDHDR\<newline>''"

definition pam_width_0 :: "char list" where
  "pam_width_0 = ''P7\<newline>WIDTH 0\<newline>HEIGHT 1\<newline>DEPTH 1\<newline>MAXVAL 255\<newline>ENDHDR\<newline>''"

lemmas pam_eval = stream_defs token_defs ReadPamHeader_loop.simps skip_line.simps

lemma pam_maxval_0_loop:
  "ReadPamHeader_loop ((fopen world_ok pam_maxval_0)\<lparr>pos := 2\<rparr>) 0 0 0 0 =
     Some (True, 1, 1, 1, 0, (fopen world_ok pam_maxval_0)\<lparr>pos := 44\<rparr>)"
  by (simp add: pam_maxval_0_def pam_eval)

lemma pam_maxval_70000_loop:
  "ReadPamHeader_loop ((fopen world_ok pam_maxval_70000)\<lparr>pos := 2\<rparr>) 0 0 0 0 =
     Some (True, 1, 1, 1, 70000, (fopen world_ok pam_maxval_70000)\<lparr>pos := 48\<rparr>)"
  by (simp add: pam_maxval_70000_def pam_eval)

lemma pam_depth_0_loop:
  "ReadPamHeader_loop ((fopen world_ok pam_depth_0)\<lparr>pos := 2\<rparr>) 0 0 0 0 =
     Some (True, 1, 1, 0, 255, (fopen world_ok pam_depth_0)\<lparr>pos := 46\<rparr>)"
  by (simp add: pam_depth_0_def pam_eval)

lemma pam_depth_5_loop:
  "ReadPamHeader_loop ((fopen world_ok pam_depth_5)\<lparr>pos := 2\<rparr>) 0 0 0 0 =
     Some (True, 1, 1, 5, 255, (fopen world_ok pam_depth_5)\<lparr>pos := 46\<rparr>)"
  by (simp add: pam_depth_5_def pam_eval)

lemma pam_width_0_loop:
  "ReadPamHeader_loop ((fopen world_ok pam_width_0)\<lparr>pos := 2\<rparr>) 0 0 0 0 =
     Some (True, 0, 1, 1, 255, (fopen world_ok pam_width_0)\<lparr>pos := 46\<rparr>)"
  by (simp add: pam_width_0_def pam_eval)

theorem ReadPamHeader_validation_witness:
  "(\<exists>s''. PamLoad ((fopen world_ok pam_maxval_0)\<lparr>pos := 2\<rparr>) 0 0 0 0 = Some (None, - 1, - 1, s'')
         \<and> stderr s'' = [InvalidRange] \<and> mallocs s'' = 0) \<and>
   (\<exists>s''. PamLoad ((fopen world_ok pam_maxval_70000)\<lparr>pos := 2\<rparr>) 0 0 0 0 =
           Some (None, - 1, - 1, s'')
         \<and> stderr s'' = [InvalidRange] \<and> mallocs s'' = 0) \<and>
   (\<exists>s''. PamLoad ((fopen world_ok pam_depth_0)\<lparr>pos := 2\<rparr>) 0 0 0 0 = Some (None, - 1, - 1, s'')
         \<and> stderr s'' = [InvalidRange] \<and> mallocs s'' = 0) \<and>
   (\<exists>s''. PamLoad ((fopen world_ok pam_depth_5)\<lparr>pos := 2\<rparr>) 0 0 0 0 = Some (None, - 1, - 1, s'')
         \<and> stderr s'' = [InvalidRange] \<and> mallocs s'' = 0) \<and>
   (\<exists>wr hr s'' e. PamLoad ((fopen world_ok pam_width_0)\<lparr>pos := 2\<rparr>) 0 0 0 0 =
           Some (None, wr, hr, s'')
         \<and> stderr s'' = [e] \<and> (e = InvalidRange \<or> e = InvalidDimension) \<and> mallocs s'' = 0)"
  using ReadPamHeader_validation [OF pam_maxval_0_loop]
    ReadPamHeader_validation [OF pam_maxval_70000_loop]
    ReadPamHeader_validation [OF pam_depth_0_loop]
    ReadPamHeader_validation [OF pam_depth_5_loop]
    ReadPamHeader_validation [OF pam_width_0_loop]
  by (simp add: stream_defs)

section \<open>Streams that end early\<close>

text \<open>The loop \<open>while (fgetc(f) != '\n');\<close> returns only if a newline is still to come.\<close>

lemma skip_line_newline:
  assumes a: "skip_line s = Some s'"
  shows "CHR 0x0A \<in> set (drop (pos s) (bytes s))"
proof (rule skip_line.raw_induct
    [where P = "\<lambda>s y. CHR 0x0A \<in> set (drop (pos s) (bytes s))", OF _ a])
  fix f :: "state \<Rightarrow> state option" and s y
  assume IH: "\<And>x y. f x = Some y \<Longrightarrow> CHR 0x0A \<in> set (drop (pos x) (bytes x))"
    and step: "(case fgetc s of (c, s') \<Rightarrow> if c \<noteq> 10 then f s' else Some s') = Some y"
  show "CHR 0x0A \<in> set (drop (pos s) (bytes s))"
  proof (cases "pos s < length (bytes s)")
    case True
    then have d: "drop (pos s) (bytes s) = bytes s ! pos s # drop (Suc (pos s)) (bytes s)"
      by (simp add: Cons_nth_drop_Suc)
    show ?thesis
    proof (cases "bytes s ! pos s = CHR 0x0A")
      case True
      with d show ?thesis by simp
    next
      case False
      with step True have "f (s\<lparr>pos := pos s + 1\<rparr>) = Some y"
        by (simp add: fgetc_def of_char_eq_10)
      from IH [OF this] d show ?thesis by simp
    qed
  next
    case False
    with step have "f (s\<lparr>eof := True\<rparr>) = Some y"
      by (simp add: fgetc_def)
    from IH [OF this] False show ?thesis by simp
  qed
qed

lemma skip_line_diverges:
  "CHR 0x0A \<notin> set (drop (pos s) (bytes s)) \<Longrightarrow> skip_line s = None"
  using skip_line_newline [of s] by (cases "skip_line s") auto

text \<open>
  Claim C9 (the code does not do what the claim says).  \<open>PnmLoad\<close> does not return on the
  file \<open>P2\<newline>1#\<close>, where the stream ends in a comment right after an integer, nor on the
  file \<open>P1\<newline>1 1\<newline>#\<close>, where it ends in a comment in the pixel data: the loop
  \<open>while (fgetc(f) != '\n');\<close> reads the end of the stream again and again.
\<close>

theorem PnmLoad_comment_at_eof_diverges:
  "PnmLoad world_ok (Some ''P2\<newline>1#'') w0 h0 d0 m0 = None \<and>
   PnmLoad world_ok (Some ''P1\<newline>1 1\<newline>#'') w0 h0 d0 m0 = None"
  by (simp add: stream_defs token_defs header_defs pixel_defs skip_line_diverges
      PbmAsciiLoad_loop.simps)

text \<open>
  Claim C1 (the code does not do what the claim says).  \<open>feof\<close> is true only after a read
  has hit the end of the stream, so the test before each read does not see a stream that
  ends exactly where the sample should start; \<open>fgetc\<close> then returns \<open>-1\<close> and that value
  is used as the sample.  The PBM-raw file \<open>P4\<newline>1 1\<newline>\<close> followed by the byte 0 decodes to
  one white pixel; without its last byte it decodes, with no message, to one black pixel
  made from the bits of \<open>-1\<close>.  The PGM-raw file \<open>P5\<newline>1 1\<newline>255\<newline>\<close> without its sample fails,
  with the message of a sample above maxval and not that of an unexpected end of file.
\<close>

theorem raw_truncated_by_one_byte:
  "PnmLoad world_ok (Some (''P4\<newline>1 1\<newline>'' @ [CHR 0x00])) w0 h0 d0 m0 =
     Some (Some [Some 0xffffffff], 1, 1,
           (fopen world_ok (''P4\<newline>1 1\<newline>'' @ [CHR 0x00]))\<lparr>pos := 8, mallocs := 1\<rparr>) \<and>
   PnmLoad world_ok (Some ''P4\<newline>1 1\<newline>'') w0 h0 d0 m0 =
     Some (Some [Some 0x000000ff], 1, 1,
           (fopen world_ok ''P4\<newline>1 1\<newline>'')\<lparr>pos := 7, eof := True, mallocs := 1\<rparr>) \<and>
   PnmLoad world_ok (Some ''P5\<newline>1 1\<newline>255\<newline>'') w0 h0 d0 m0 =
     Some (None, - 1, - 1,
           (fopen world_ok ''P5\<newline>1 1\<newline>255\<newline>'')\<lparr>pos := 11, eof := True,
              stderr := [RangeExceeded], mallocs := 1, frees := 1\<rparr>)"
  by (simp add: stream_defs token_defs header_defs pixel_defs skip_line.simps)

section \<open>Matching a keyword\<close>

text \<open>
  Claim C8.  When \<open>TokenMatch\<close> returns \<open>false\<close>, for whichever word and for whichever
  reason, the position of the stream is the one before the call, and nothing else of the
  state has changed except that the end-of-file indicator is cleared (by \<open>fseek\<close>).  When
  it returns \<open>true\<close> for a keyword (a word that is not empty, of 7-bit characters other than
  NUL), the unread bytes started with the word, and the stream has moved past the word
  and its terminator: past nothing more at the end of the stream, past one whitespace
  byte, or past a comment up to and including its newline (or up to the end of the stream
  when the comment has no newline).
\<close>

theorem TokenMatch_cursor:
  "(TokenMatch s str = (False, s') \<longrightarrow> pos s' = pos s \<and> s' = s\<lparr>eof := False\<rparr>) \<and>
   (TokenMatch s str = (True, s') \<and> str \<noteq> [] \<and>
    (\<forall>c\<in>set str. (0::int) < of_char c \<and> of_char c < (128::int)) \<longrightarrow>
      (\<exists>r. unread s = str @ r \<and>
           (case r of
              [] \<Rightarrow> s' = s\<lparr>pos := pos s + length str, eof := True\<rparr>
            | c # r' \<Rightarrow>
                if c = CHR ''#'' then
                  s' = (if CHR 0x0A \<in> set r'
                        then s\<lparr>pos := pos s + length str +
                                        length (takeWhile (\<lambda>c. c \<noteq> CHR 0x0A) r') + 2\<rparr>
                        else s\<lparr>pos := pos s + length str + length r' + 1, eof := True\<rparr>)
                else isspace (of_char c) \<and> s' = s\<lparr>pos := pos s + length str + 1\<rparr>)))"
proof (intro conjI impI)
  assume a: "TokenMatch s str = (False, s')"
  from TokenMatch_False [OF a] show "pos s' = pos s" by simp
  from TokenMatch_False [OF a] show "s' = s\<lparr>eof := False\<rparr>" .
next
  assume "TokenMatch s str = (True, s') \<and> str \<noteq> [] \<and>
    (\<forall>c\<in>set str. (0::int) < of_char c \<and> of_char c < (128::int))"
  then show "\<exists>r. unread s = str @ r \<and>
           (case r of
              [] \<Rightarrow> s' = s\<lparr>pos := pos s + length str, eof := True\<rparr>
            | c # r' \<Rightarrow>
                if c = CHR ''#'' then
                  s' = (if CHR 0x0A \<in> set r'
                        then s\<lparr>pos := pos s + length str +
                                        length (takeWhile (\<lambda>c. c \<noteq> CHR 0x0A) r') + 2\<rparr>
                        else s\<lparr>pos := pos s + length str + length r' + 1, eof := True\<rparr>)
                else isspace (of_char c) \<and> s' = s\<lparr>pos := pos s + length str + 1\<rparr>)"
    using TokenMatch_True [of s str s'] by blast
qed

text \<open>The stream \<open>DEPTH 3 #\<close>: \<open>DEPTHS\<close> does not match, \<open>DEPTH\<close> does.\<close>

definition depth_line :: state where
  "depth_line = fopen world_ok ''DEPTH 3 #''"

lemma depth_line_DEPTHS:
  "TokenMatch depth_line ''DEPTHS'' = (False, depth_line)"
  by (simp add: depth_line_def stream_defs token_defs)

lemma depth_line_DEPTH:
  "TokenMatch depth_line ''DEPTH'' = (True, depth_line\<lparr>pos := 6\<rparr>)"
  by (simp add: depth_line_def stream_defs token_defs)

theorem TokenMatch_cursor_witness:
  "TokenMatch depth_line ''DEPTHS'' = (False, depth_line) \<and>
   pos depth_line = 0 \<and> depth_line = depth_line\<lparr>eof := False\<rparr> \<and>
   TokenMatch depth_line ''DEPTH'' = (True, depth_line\<lparr>pos := 6\<rparr>) \<and> ''DEPTH'' \<noteq> [] \<and>
   unread depth_line = ''DEPTH'' @ '' 3 #'' \<and> isspace (of_char CHR '' '') \<and>
   depth_line\<lparr>pos := 6\<rparr> = depth_line\<lparr>pos := pos depth_line + length ''DEPTH'' + 1\<rparr>"
  using TokenMatch_cursor [of depth_line "''DEPTHS''" depth_line]
    TokenMatch_cursor [of depth_line "''DEPTH''" "depth_line\<lparr>pos := 6\<rparr>"]
    depth_line_DEPTHS depth_line_DEPTH
  by (simp add: depth_line_def stream_defs)

text \<open>Outside the keywords the comparison of \<open>fgetc\<close>'s \<open>int\<close> with a \<open>char\<close> shows: the
  word made of the byte \<open>0xE9\<close> does not match a stream that starts with that byte, and
  the word made of the byte \<open>0xFF\<close> matches the end of the empty stream.\<close>

lemma TokenMatch_high_bytes:
  "TokenMatch (fopen world_ok [CHR 0xE9, CHR '' '', CHR ''x'']) [CHR 0xE9] =
     (False, fopen world_ok [CHR 0xE9, CHR '' '', CHR ''x'']) \<and>
   TokenMatch (fopen world_ok []) [CHR 0xFF] = (True, (fopen world_ok [])\<lparr>eof := True\<rparr>)"
  by (simp add: stream_defs token_defs)

section \<open>The PBM decoders\<close>

text \<open>What a PBM header that was accepted leaves behind, when the product of width and
  height fits the type \<open>int\<close>.\<close>

lemma pbm_header_facts:
  assumes "ReadPbmHeader ((fopen s0 bs)\<lparr>pos := 2\<rparr>) = Some (Some pix0, w, h, s1)"
    and "w * h < 2 ^ 31"
  shows "eof_ok s1" and "int32 (w * h) = w * h" and "pix0 = replicate (nat (w * h)) None"
    and "1 \<le> w * h"
proof -
  have "eof_ok ((fopen s0 bs)\<lparr>pos := 2\<rparr>)" by (simp add: eof_ok_def fopen_def)
  then show "eof_ok s1" by (rule eof_ok_ReadPbmHeader [OF assms(1)])
  from ReadPbmHeader_Some [OF assms(1)]
  have w: "1 \<le> w" and h: "1 \<le> h" and p: "pix0 = replicate (pix_bytes w h div 4) None"
    by auto
  from w h have "1 * 1 \<le> w * h" by (intro mult_mono) simp_all
  then show wh: "1 \<le> w * h" by simp
  then show i: "int32 (w * h) = w * h" using assms(2) by (intro int32_self) simp_all
  from p i wh show "pix0 = replicate (nat (w * h)) None" by (simp add: pix_bytes_div4)
qed

lemma PnmLoad_pbm_ascii:
  assumes "ReadPbmHeader ((fopen s0 (CHR ''P'' # CHR ''1'' # rest))\<lparr>pos := 2\<rparr>) =
             Some (Some pix0, w, h, s1)"
  shows "PnmLoad s0 (Some (CHR ''P'' # CHR ''1'' # rest)) w0 h0 d0 m0 =
         map_option (finish w h) (PbmAsciiLoad_loop (int32 (w * h)) 0 pix0 s1)"
  by (simp add: PnmLoad_dispatch PbmAsciiLoad_def assms)

lemma PnmLoad_pbm_raw:
  assumes "ReadPbmHeader ((fopen s0 (CHR ''P'' # CHR ''4'' # rest))\<lparr>pos := 2\<rparr>) =
             Some (Some pix0, w, h, s1)"
  shows "PnmLoad s0 (Some (CHR ''P'' # CHR ''4'' # rest)) w0 h0 d0 m0 =
         Some (finish w h (PbmRawLoad_loop (int32 (w * h)) 0 0 pix0 s1))"
  by (simp add: PnmLoad_dispatch PbmRawLoad_def assms)

text \<open>The loop of \<open>PbmRawLoad\<close> when all the data bytes of its \<open>sz\<close> pixels are there.\<close>

lemma PbmRawLoad_loop_all:
  assumes "0 \<le> sz" and "eof_ok s" and "pos s + nat ((sz + 7) div 8) \<le> length (bytes s)"
  shows "PbmRawLoad_loop sz 0 byte (replicate (nat sz) None) s =
           (True,
            map (\<lambda>j. Some (pbm_colour (bit (of_char (bytes s ! (pos s + j div 8)) :: 8 word)
                                            (7 - j mod 8)))) [0..<nat sz],
            s\<lparr>pos := pos s + nat ((sz + 7) div 8)\<rparr>)"
proof (cases "sz = 0")
  case True
  then show ?thesis by (subst PbmRawLoad_loop.simps) simp
next
  case False
  with assms(1) have "1 \<le> (sz + 7) div 8" by presburger
  with assms(3) have "unread s \<noteq> []" by simp
  with assms(2) have ne: "\<not> eof s" by (rule eof_ok_unread)
  from PbmRawLoad_loop_bits [of 0 sz "replicate (nat sz) None" s "pos s" byte] assms(1,3) ne
  obtain pix' where
    r: "PbmRawLoad_loop sz 0 byte (replicate (nat sz) None) s =
          (True, pix', s\<lparr>pos := pos s + nat ((sz + 7) div 8)\<rparr>)"
    and len: "length pix' = nat sz"
    and px: "\<forall>j. j < nat sz \<longrightarrow>
               pix' ! j = Some (if bit (of_char (bytes s ! (pos s + j div 8)) :: 8 word) (7 - j mod 8)
                                then 0x000000ff else 0xffffffff)"
    by auto
  have "pix' = map (\<lambda>j. Some (pbm_colour (bit (of_char (bytes s ! (pos s + j div 8)) :: 8 word)
                                            (7 - j mod 8)))) [0..<nat sz]"
    using len px by (intro nth_equalityI) (simp_all add: pbm_colour_def)
  with r show ?thesis by simp
qed

text \<open>
  Claim C4 (amended: the product of width and height must fit the type \<open>int\<close>).
  Let \<open>PnmLoad\<close> read a file with the magic number \<open>P1\<close> or \<open>P4\<close> whose
  header is accepted with width \<open>w\<close> and height \<open>h\<close>, \<open>w * h < 2^31\<close>, and let \<open>s1\<close> be the
  stream after the header.

  \<^item> PBM-ASCII: when the pixel data is a sequence of items (sample characters, comments ended
    by their newline, other bytes) that ends with its \<open>w * h\<close>-th sample, \<open>PnmLoad\<close> returns
    \<open>w\<close>, \<open>h\<close> and the buffer that holds, in order, black (\<open>0x000000FF\<close>) for each sample
    \<open>'1'\<close> and white (\<open>0xFFFFFFFF\<close>) for each sample \<open>'0'\<close>; the stream stands after the last
    sample and nothing is written to the standard error stream.
  \<^item> PBM-raw: when the \<open>(w * h + 7) div 8\<close> data bytes are there, \<open>PnmLoad\<close> returns \<open>w\<close>, \<open>h\<close>
    and the buffer of \<open>w * h\<close> pixels in which pixel \<open>j\<close> is black if bit \<open>7 - j mod 8\<close> of
    data byte \<open>j div 8\<close> is set, and white otherwise: the bits are taken in one run over the
    whole image, and a row does not start a new byte.  The stream stands after the last
    data byte.
\<close>

theorem pbm_polarity_and_packing:
  assumes "ReadPbmHeader ((fopen s0 (CHR ''P'' # d # rest))\<lparr>pos := 2\<rparr>) =
             Some (Some pix0, w, h, s1)"
    and "w * h < 2 ^ 31"
  shows "(d = CHR ''1'' \<and> unread s1 = pbm_text (its @ [Sample b]) @ r \<and>
          list_all pbm_item_ok its \<and> int (length (pbm_samples (its @ [Sample b]))) = w * h \<longrightarrow>
            PnmLoad s0 (Some (CHR ''P'' # d # rest)) w0 h0 d0 m0 =
              Some (Some (map (\<lambda>b. Some (pbm_colour b)) (pbm_samples (its @ [Sample b]))), w, h,
                    s1\<lparr>pos := pos s1 + length (pbm_text (its @ [Sample b]))\<rparr>)) \<and>
         (d = CHR ''4'' \<and> pos s1 + nat ((w * h + 7) div 8) \<le> length (bytes s1) \<longrightarrow>
            PnmLoad s0 (Some (CHR ''P'' # d # rest)) w0 h0 d0 m0 =
              Some (Some (map (\<lambda>j. Some (pbm_colour
                             (bit (of_char (bytes s1 ! (pos s1 + j div 8)) :: 8 word) (7 - j mod 8))))
                           [0..<nat (w * h)]), w, h,
                    s1\<lparr>pos := pos s1 + nat ((w * h + 7) div 8)\<rparr>))"
proof (intro conjI impI)
  note hd = pbm_header_facts [OF assms]
  assume a: "d = CHR ''1'' \<and> unread s1 = pbm_text (its @ [Sample b]) @ r \<and>
          list_all pbm_item_ok its \<and> int (length (pbm_samples (its @ [Sample b]))) = w * h"
  then have u: "unread s1 = pbm_text (its @ [Sample b]) @ r" and ok: "list_all pbm_item_ok its"
    and n: "int (length (pbm_samples (its @ [Sample b]))) = w * h" by simp_all
  have l: "length pix0 = nat (w * h)" using hd(3) by simp
  from a assms(1) have
    "ReadPbmHeader ((fopen s0 (CHR ''P'' # CHR ''1'' # rest))\<lparr>pos := 2\<rparr>) =
       Some (Some pix0, w, h, s1)" by simp
  from PnmLoad_pbm_ascii [OF this] a
  have "PnmLoad s0 (Some (CHR ''P'' # d # rest)) w0 h0 d0 m0 =
        map_option (finish w h) (PbmAsciiLoad_loop (w * h) 0 pix0 s1)"
    by (simp add: hd(2))
  also have "\<dots> = Some (Some (map (\<lambda>b. Some (pbm_colour b)) (pbm_samples (its @ [Sample b]))), w, h,
                    s1\<lparr>pos := pos s1 + length (pbm_text (its @ [Sample b]))\<rparr>)"
    unfolding PbmAsciiLoad_loop_all [OF u ok n l] by (simp add: finish_def)
  finally show "PnmLoad s0 (Some (CHR ''P'' # d # rest)) w0 h0 d0 m0 =
              Some (Some (map (\<lambda>b. Some (pbm_colour b)) (pbm_samples (its @ [Sample b]))), w, h,
                    s1\<lparr>pos := pos s1 + length (pbm_text (its @ [Sample b]))\<rparr>)" .
next
  note hd = pbm_header_facts [OF assms]
  assume a: "d = CHR ''4'' \<and> pos s1 + nat ((w * h + 7) div 8) \<le> length (bytes s1)"
  then have le: "pos s1 + nat ((w * h + 7) div 8) \<le> length (bytes s1)" by simp
  have nn: "0 \<le> w * h" using hd(4) by simp
  from a assms(1) have
    "ReadPbmHeader ((fopen s0 (CHR ''P'' # CHR ''4'' # rest))\<lparr>pos := 2\<rparr>) =
       Some (Some pix0, w, h, s1)" by simp
  from PnmLoad_pbm_raw [OF this] a
  have "PnmLoad s0 (Some (CHR ''P'' # d # rest)) w0 h0 d0 m0 =
        Some (finish w h (PbmRawLoad_loop (w * h) 0 0 (replicate (nat (w * h)) None) s1))"
    by (simp add: hd(2) hd(3) [symmetric])
  then show "PnmLoad s0 (Some (CHR ''P'' # d # rest)) w0 h0 d0 m0 =
              Some (Some (map (\<lambda>j. Some (pbm_colour
                             (bit (of_char (bytes s1 ! (pos s1 + j div 8)) :: 8 word) (7 - j mod 8))))
                           [0..<nat (w * h)]), w, h,
                    s1\<lparr>pos := pos s1 + nat ((w * h + 7) div 8)\<rparr>)"
    unfolding PbmRawLoad_loop_all [OF nn hd(1) le] by (simp add: finish_def)
qed

text \<open>A 2x2 PBM-ASCII file with a comment and other bytes in its pixel data, and more
  bytes after the last sample.\<close>

definition pbm_commented :: "char list" where
  "pbm_commented = ''P1\<newline>2 2\<newline>1 0 # two\<newline>1,0 tail''"

definition pbm_commented_items :: "pbm_item list" where
  "pbm_commented_items =
     [Sample True, Other CHR '' '', Sample False, Other CHR '' '', Comment '' two'',
      Sample True, Other CHR '','']"

text \<open>A 3x3 PBM-raw file with the data bytes \<open>0xA5 0x80\<close>: its second row starts at bit 4
  of the first byte.\<close>

definition pbm_raw_3x3 :: "char list" where
  "pbm_raw_3x3 = ''P4\<newline>3 3\<newline>'' @ [CHR 0xA5, CHR 0x80]"

lemma pbm_commented_header:
  "ReadPbmHeader ((fopen world_ok pbm_commented)\<lparr>pos := 2\<rparr>) =
     Some (Some (replicate 4 None), 2, 2, (fopen world_ok pbm_commented)\<lparr>pos := 7, mallocs := 1\<rparr>)"
  by (simp add: pbm_commented_def stream_defs token_defs header_defs skip_line.simps)

lemma pbm_raw_3x3_header:
  "ReadPbmHeader ((fopen world_ok pbm_raw_3x3)\<lparr>pos := 2\<rparr>) =
     Some (Some (replicate 9 None), 3, 3, (fopen world_ok pbm_raw_3x3)\<lparr>pos := 7, mallocs := 1\<rparr>)"
  by (simp add: pbm_raw_3x3_def stream_defs token_defs header_defs skip_line.simps)

theorem pbm_polarity_and_packing_witness:
  "ReadPbmHeader ((fopen world_ok pbm_commented)\<lparr>pos := 2\<rparr>) =
     Some (Some (replicate 4 None), 2, 2, (fopen world_ok pbm_commented)\<lparr>pos := 7, mallocs := 1\<rparr>) \<and>
   (2 :: int) * 2 < 2 ^ 31 \<and>
   unread ((fopen world_ok pbm_commented)\<lparr>pos := 7, mallocs := 1\<rparr>) =
     pbm_text (pbm_commented_items @ [Sample False]) @ '' tail'' \<and>
   list_all pbm_item_ok pbm_commented_items \<and>
   int (length (pbm_samples (pbm_commented_items @ [Sample False]))) = 2 * 2 \<and>
   PnmLoad world_ok (Some pbm_commented) 0 0 0 0 =
     Some (Some [Some 0x000000ff, Some 0xffffffff, Some 0x000000ff, Some 0xffffffff], 2, 2,
           (fopen world_ok pbm_commented)\<lparr>pos := 20, mallocs := 1\<rparr>) \<and>
   ReadPbmHeader ((fopen world_ok pbm_raw_3x3)\<lparr>pos := 2\<rparr>) =
     Some (Some (replicate 9 None), 3, 3, (fopen world_ok pbm_raw_3x3)\<lparr>pos := 7, mallocs := 1\<rparr>) \<and>
   (3 :: int) * 3 < 2 ^ 31 \<and>
   pos ((fopen world_ok pbm_raw_3x3)\<lparr>pos := 7, mallocs := 1\<rparr>) + nat ((3 * 3 + 7) div 8)
     \<le> length (bytes ((fopen world_ok pbm_raw_3x3)\<lparr>pos := 7, mallocs := 1\<rparr>)) \<and>
   PnmLoad world_ok (Some pbm_raw_3x3) 0 0 0 0 =
     Some (Some [Some 0x000000ff, Some 0xffffffff, Some 0x000000ff,
                 Some 0xffffffff, Some 0xffffffff, Some 0x000000ff,
                 Some 0xffffffff, Some 0x000000ff, Some 0x000000ff], 3, 3,
           (fopen world_ok pbm_raw_3x3)\<lparr>pos := 9, mallocs := 1\<rparr>)"
proof -
  have lt: "(2 :: int) * 2 < 2 ^ 31" "(3 :: int) * 3 < 2 ^ 31" by simp_all
  have u: "unread ((fopen world_ok pbm_commented)\<lparr>pos := 7, mallocs := 1\<rparr>) =
     pbm_text (pbm_commented_items @ [Sample False]) @ '' tail''"
    by (simp add: pbm_commented_def pbm_commented_items_def stream_defs)
  have ok: "list_all pbm_item_ok pbm_commented_items"
    by (simp add: pbm_commented_items_def)
  have n: "int (length (pbm_samples (pbm_commented_items @ [Sample False]))) = 2 * 2"
    by (simp add: pbm_commented_items_def)
  have le: "pos ((fopen world_ok pbm_raw_3x3)\<lparr>pos := 7, mallocs := 1\<rparr>) + nat ((3 * 3 + 7) div 8)
     \<le> length (bytes ((fopen world_ok pbm_raw_3x3)\<lparr>pos := 7, mallocs := 1\<rparr>))"
    by (simp add: pbm_raw_3x3_def stream_defs)
  have up: "[0..<9] = [0, 1, 2, 3, 4, 5, 6, 7, 8]" by (simp add: upt_rec)
  from pbm_polarity_and_packing
    [OF pbm_commented_header [unfolded pbm_commented_def] lt(1),
     where its = pbm_commented_items and b = False and r = "'' tail''", THEN conjunct1]
    u ok n
  have a: "PnmLoad world_ok (Some pbm_commented) 0 0 0 0 =
     Some (Some [Some 0x000000ff, Some 0xffffffff, Some 0x000000ff, Some 0xffffffff], 2, 2,
           (fopen world_ok pbm_commented)\<lparr>pos := 20, mallocs := 1\<rparr>)"
    by (simp add: pbm_commented_def pbm_commented_items_def pbm_colour_def)
  from pbm_polarity_and_packing
    [OF pbm_raw_3x3_header [unfolded pbm_raw_3x3_def append.simps] lt(2), THEN conjunct2] le
  have b: "PnmLoad world_ok (Some pbm_raw_3x3) 0 0 0 0 =
     Some (Some [Some 0x000000ff, Some 0xffffffff, Some 0x000000ff,
                 Some 0xffffffff, Some 0xffffffff, Some 0x000000ff,
                 Some 0xffffffff, Some 0x000000ff, Some 0x000000ff], 3, 3,
           (fopen world_ok pbm_raw_3x3)\<lparr>pos := 9, mallocs := 1\<rparr>)"
    by (simp add: pbm_raw_3x3_def pbm_colour_def up fopen_def bit_numeral_word_iff)
  from pbm_commented_header lt u ok n a pbm_raw_3x3_header le b show ?thesis
    by (intro conjI)
qed

text \<open>A PBM-raw image of 641 by 6700417 pixels, with all of its 536870913 data bytes, each
  \<open>0x40\<close>: the product of width and height is \<open>2^32 + 1\<close>, which is 1 in the type \<open>int\<close>.
  \<open>PnmLoad\<close> returns a buffer of one pixel, made from bit 7 of the first data byte; pixel 1
  of the image, the black one of bit 6, is not decoded, nor is any pixel after it.\<close>

definition pbm_raw_wide :: "char list" where
  "pbm_raw_wide = ''P4\<newline>641 6700417\<newline>'' @ replicate 536870913 (CHR 0x40)"

theorem pbm_raw_overflow:
  "length pbm_raw_wide = 15 + nat ((641 * 6700417 + 7) div 8) \<and>
   PnmLoad world_ok (Some pbm_raw_wide) 0 0 0 0 =
     Some (Some [Some 0xffffffff], 641, 6700417,
           (fopen world_ok pbm_raw_wide)\<lparr>pos := 16, mallocs := 1\<rparr>)"
  by (simp add: pbm_raw_wide_def stream_defs token_defs header_defs loader_defs skip_line.simps)

text \<open>
  Claim C10 (amended: the product of width and height must fit the type \<open>int\<close>).
  Let \<open>PnmLoad\<close> read a file with the magic number \<open>P1\<close> whose header is accepted with width
  \<open>w\<close> and height \<open>h\<close>, \<open>w * h < 2^31\<close>, and let \<open>s1\<close> be the stream after the header.

  \<^item> When the pixel data starts with bytes \<open>pre\<close>, none of them \<open>'#'\<close>, that hold
    \<open>w * h - 1\<close> sample characters among any other bytes, and goes on with a sample
    character \<open>c\<close>, \<open>PnmLoad\<close> returns \<open>w\<close>, \<open>h\<close> and the \<open>w * h\<close> pixels of the sample
    characters of \<open>pre\<close> and of \<open>c\<close>, in order; it has read up to \<open>c\<close> and no further, and has
    written nothing to the standard error stream.
  \<^item> When the pixel data holds no \<open>'#'\<close> and fewer than \<open>w * h\<close> sample characters,
    \<open>PnmLoad\<close> reads to the end of the stream, writes the message of an unexpected end of
    file and no other, frees the buffer and returns \<open>NULL\<close>.
\<close>

theorem PbmAsciiLoad_skips_other_bytes:
  assumes "ReadPbmHeader ((fopen s0 (CHR ''P'' # CHR ''1'' # rest))\<lparr>pos := 2\<rparr>) =
             Some (Some pix0, w, h, s1)"
    and "w * h < 2 ^ 31"
  shows "(unread s1 = pre @ c # post \<and> CHR ''#'' \<notin> set pre \<and> (c = CHR ''0'' \<or> c = CHR ''1'') \<and>
          int (length (pbm_bits pre)) + 1 = w * h \<longrightarrow>
            PnmLoad s0 (Some (CHR ''P'' # CHR ''1'' # rest)) w0 h0 d0 m0 =
              Some (Some (map (\<lambda>c. Some (pbm_pixel c)) (pbm_bits pre @ [c])), w, h,
                    s1\<lparr>pos := pos s1 + length pre + 1\<rparr>)) \<and>
         (CHR ''#'' \<notin> set (unread s1) \<and> int (length (pbm_bits (unread s1))) < w * h \<longrightarrow>
            PnmLoad s0 (Some (CHR ''P'' # CHR ''1'' # rest)) w0 h0 d0 m0 =
              Some (None, - 1, - 1,
                    s1\<lparr>pos := pos s1 + length (unread s1), eof := True,
                       stderr := stderr s1 @ [UnexpectedEof], frees := frees s1 + 1\<rparr>))"
proof (intro conjI impI)
  note hd = pbm_header_facts [OF assms]
  note ld = PnmLoad_pbm_ascii [OF assms(1), of w0 h0 d0 m0, unfolded hd(2)]
  assume a: "unread s1 = pre @ c # post \<and> CHR ''#'' \<notin> set pre \<and>
             (c = CHR ''0'' \<or> c = CHR ''1'') \<and> int (length (pbm_bits pre)) + 1 = w * h"
  define its where "its = map pbm_classify pre"
  define b where "b = (c = CHR ''1'')"
  have c: "[c] = pbm_chars (Sample b)" using a by (auto simp: b_def)
  have u: "unread s1 = pbm_text (its @ [Sample b]) @ post"
    using a c by (simp add: its_def pbm_classify_text)
  have ok: "list_all pbm_item_ok its" using a by (simp add: its_def pbm_classify_ok)
  have sm: "pbm_samples (its @ [Sample b]) = map (\<lambda>c. c = CHR ''1'') (pbm_bits pre @ [c])"
    by (simp add: its_def pbm_classify_samples b_def)
  have n: "int (length (pbm_samples (its @ [Sample b]))) = w * h"
    unfolding sm using a by simp
  have l: "length pix0 = nat (w * h)" using hd(3) by simp
  have tl: "length (pbm_text (its @ [Sample b])) = length pre + 1"
    by (simp add: its_def pbm_classify_text)
  show "PnmLoad s0 (Some (CHR ''P'' # CHR ''1'' # rest)) w0 h0 d0 m0 =
              Some (Some (map (\<lambda>c. Some (pbm_pixel c)) (pbm_bits pre @ [c])), w, h,
                    s1\<lparr>pos := pos s1 + length pre + 1\<rparr>)"
    unfolding ld PbmAsciiLoad_loop_all [OF u ok n l] sm tl
    by (simp add: finish_def comp_def)
next
  note hd = pbm_header_facts [OF assms]
  note ld = PnmLoad_pbm_ascii [OF assms(1), of w0 h0 d0 m0, unfolded hd(2)]
  assume a: "CHR ''#'' \<notin> set (unread s1) \<and> int (length (pbm_bits (unread s1))) < w * h"
  then have "int (length (pbm_bits (unread s1))) < w * h - 0" by simp
  from PbmAsciiLoad_loop_short [OF refl _ this, of pix0] a
  obtain pix' where "PbmAsciiLoad_loop (w * h) 0 pix0 s1 =
           Some (False, pix', s1\<lparr>pos := pos s1 + length (unread s1), eof := True,
                                 stderr := stderr s1 @ [UnexpectedEof]\<rparr>)"
    by blast
  then show "PnmLoad s0 (Some (CHR ''P'' # CHR ''1'' # rest)) w0 h0 d0 m0 =
              Some (None, - 1, - 1,
                    s1\<lparr>pos := pos s1 + length (unread s1), eof := True,
                       stderr := stderr s1 @ [UnexpectedEof], frees := frees s1 + 1\<rparr>)"
    unfolding ld by (simp add: finish_def free_def)
qed

text \<open>A 2x2 PBM-ASCII file with letters, blanks and punctuation among its samples, and the
  same file cut after its third sample.\<close>

definition pbm_noise :: "char list" where
  "pbm_noise = ''P1\<newline>2 2\<newline>1x0 ,1\<newline>0 1 # more''"

definition pbm_noise_cut :: "char list" where
  "pbm_noise_cut = ''P1\<newline>2 2\<newline>1x0 ,1\<newline>''"

lemma pbm_noise_header:
  "ReadPbmHeader ((fopen world_ok pbm_noise)\<lparr>pos := 2\<rparr>) =
     Some (Some (replicate 4 None), 2, 2, (fopen world_ok pbm_noise)\<lparr>pos := 7, mallocs := 1\<rparr>)"
  by (simp add: pbm_noise_def stream_defs token_defs header_defs skip_line.simps)

lemma pbm_noise_cut_header:
  "ReadPbmHeader ((fopen world_ok pbm_noise_cut)\<lparr>pos := 2\<rparr>) =
     Some (Some (replicate 4 None), 2, 2, (fopen world_ok pbm_noise_cut)\<lparr>pos := 7, mallocs := 1\<rparr>)"
  by (simp add: pbm_noise_cut_def stream_defs token_defs header_defs skip_line.simps)

theorem PbmAsciiLoad_skips_other_bytes_witness:
  "ReadPbmHeader ((fopen world_ok pbm_noise)\<lparr>pos := 2\<rparr>) =
     Some (Some (replicate 4 None), 2, 2, (fopen world_ok pbm_noise)\<lparr>pos := 7, mallocs := 1\<rparr>) \<and>
   (2 :: int) * 2 < 2 ^ 31 \<and>
   unread ((fopen world_ok pbm_noise)\<lparr>pos := 7, mallocs := 1\<rparr>) =
     ''1x0 ,1\<newline>'' @ CHR ''0'' # '' 1 # more'' \<and>
   CHR ''#'' \<notin> set ''1x0 ,1\<newline>'' \<and>
   int (length (pbm_bits ''1x0 ,1\<newline>'')) + 1 = 2 * 2 \<and>
   PnmLoad world_ok (Some pbm_noise) 0 0 0 0 =
     Some (Some [Some 0x000000ff, Some 0xffffffff, Some 0x000000ff, Some 0xffffffff], 2, 2,
           (fopen world_ok pbm_noise)\<lparr>pos := 15, mallocs := 1\<rparr>) \<and>
   ReadPbmHeader ((fopen world_ok pbm_noise_cut)\<lparr>pos := 2\<rparr>) =
     Some (Some (replicate 4 None), 2, 2, (fopen world_ok pbm_noise_cut)\<lparr>pos := 7, mallocs := 1\<rparr>) \<and>
   CHR ''#'' \<notin> set (unread ((fopen world_ok pbm_noise_cut)\<lparr>pos := 7, mallocs := 1\<rparr>)) \<and>
   int (length (pbm_bits (unread ((fopen world_ok pbm_noise_cut)\<lparr>pos := 7, mallocs := 1\<rparr>)))) < 2 * 2 \<and>
   PnmLoad world_ok (Some pbm_noise_cut) 0 0 0 0 =
     Some (None, - 1, - 1,
           (fopen world_ok pbm_noise_cut)\<lparr>pos := 14, eof := True, stderr := [UnexpectedEof],
              mallocs := 1, frees := 1\<rparr>)"
proof -
  have lt: "(2 :: int) * 2 < 2 ^ 31" by simp
  have u: "unread ((fopen world_ok pbm_noise)\<lparr>pos := 7, mallocs := 1\<rparr>) =
     ''1x0 ,1\<newline>'' @ CHR ''0'' # '' 1 # more''"
    by (simp add: pbm_noise_def stream_defs)
  have nh: "CHR ''#'' \<notin> set ''1x0 ,1\<newline>''" by simp
  have n: "int (length (pbm_bits ''1x0 ,1\<newline>'')) + 1 = 2 * 2" by simp
  have nh2: "CHR ''#'' \<notin> set (unread ((fopen world_ok pbm_noise_cut)\<lparr>pos := 7, mallocs := 1\<rparr>))"
    by (simp add: pbm_noise_cut_def stream_defs)
  have n2: "int (length (pbm_bits (unread ((fopen world_ok pbm_noise_cut)\<lparr>pos := 7, mallocs := 1\<rparr>)))) < 2 * 2"
    by (simp add: pbm_noise_cut_def stream_defs)
  from PbmAsciiLoad_skips_other_bytes
    [OF pbm_noise_header [unfolded pbm_noise_def] lt,
     where pre = "''1x0 ,1\<newline>''" and c = "CHR ''0''" and post = "'' 1 # more''", THEN conjunct1]
    u nh n
  have a: "PnmLoad world_ok (Some pbm_noise) 0 0 0 0 =
     Some (Some [Some 0x000000ff, Some 0xffffffff, Some 0x000000ff, Some 0xffffffff], 2, 2,
           (fopen world_ok pbm_noise)\<lparr>pos := 15, mallocs := 1\<rparr>)"
    by (simp add: pbm_noise_def pbm_colour_def)
  from PbmAsciiLoad_skips_other_bytes
    [OF pbm_noise_cut_header [unfolded pbm_noise_cut_def] lt, THEN conjunct2] nh2 n2
  have b: "PnmLoad world_ok (Some pbm_noise_cut) 0 0 0 0 =
     Some (None, - 1, - 1,
           (fopen world_ok pbm_noise_cut)\<lparr>pos := 14, eof := True, stderr := [UnexpectedEof],
              mallocs := 1, frees := 1\<rparr>)"
    by (simp add: pbm_noise_cut_def stream_defs)
  from pbm_noise_header lt u nh n a pbm_noise_cut_header nh2 n2 b show ?thesis
    by (intro conjI)
qed

text \<open>A PBM-ASCII image of 641 by 6700417 pixels, with all of its \<open>2^32 + 1\<close> samples, each
  \<open>'1'\<close>: \<open>PnmLoad\<close> stops after one pixel, and returns a buffer of one pixel with the
  width 641 and the height 6700417.\<close>

definition pbm_ascii_wide :: "char list" where
  "pbm_ascii_wide = ''P1\<newline>641 6700417\<newline>'' @ replicate 4294967297 (CHR ''1'')"

theorem pbm_ascii_overflow:
  "length (pbm_bits (drop 15 pbm_ascii_wide)) = nat (641 * 6700417) \<and>
   PnmLoad world_ok (Some pbm_ascii_wide) 0 0 0 0 =
     Some (Some [Some 0x000000ff], 641, 6700417,
           (fopen world_ok pbm_ascii_wide)\<lparr>pos := 16, mallocs := 1\<rparr>)"
  by (simp add: pbm_ascii_wide_def stream_defs token_defs header_defs loader_defs skip_line.simps
      PbmAsciiLoad_loop.simps)

end
